theory Spec2Isabelle
  imports Main "HOL-Library.Sublist"
begin

section \<open>Regular expressions with backtracking priority\<close>

text \<open>
  \<^verbatim>\<open>lib/parse.js\<close> drives everything through JavaScript regular expressions. The
  patterns of the module are transcribed literally into the datatype below, and
  \<open>matches\<close> gives them the backtracking semantics of ECMAScript: the list of all ways a
  pattern can match at the current position, in the order in which a backtracking matcher
  tries them. The head of the list is the match JavaScript reports.

  Strings are lists of \<^typ>\<open>char\<close>: the code units 0 to 255 of a JavaScript string.
\<close>

datatype regex =
    Bol                     \<comment> \<open>\<^verbatim>\<open>^\<close> (no multiline flag)\<close>
  | Eol                     \<comment> \<open>\<^verbatim>\<open>$\<close> (no multiline flag)\<close>
  | Chr "char \<Rightarrow> bool"       \<comment> \<open>one character of a class\<close>
  | Eps
  | Seq regex regex
  | Alt regex regex         \<comment> \<open>\<^verbatim>\<open>a|b\<close>, left alternative first\<close>
  | Star regex              \<comment> \<open>greedy \<^verbatim>\<open>a*\<close>\<close>
  | Lazy regex              \<comment> \<open>non-greedy \<^verbatim>\<open>a*?\<close>\<close>
  | Group nat regex         \<comment> \<open>capturing group number \<open>n\<close>\<close>

type_synonym captures = "nat \<Rightarrow> string option"

record mstate =
  pos :: nat
  rest :: string
  caps :: captures

text \<open>
  A repetition gives up an iteration that consumed nothing (the empty check of the
  ECMAScript RepeatMatcher), so both repetitions recurse on a shorter rest only. No
  pattern of the module has a group inside a repetition, so the reset of such groups at
  each iteration is left out.
\<close>

function star_iter :: "(mstate \<Rightarrow> mstate list) \<Rightarrow> mstate \<Rightarrow> mstate list" where
  "star_iter m st =
     concat (map (\<lambda>st'. if length (rest st') < length (rest st) then star_iter m st' else [])
                 (m st)) @ [st]"
  by pat_completeness auto
termination
  by (relation "measure (\<lambda>(m, st). length (rest st))") auto

function lazy_iter :: "(mstate \<Rightarrow> mstate list) \<Rightarrow> mstate \<Rightarrow> mstate list" where
  "lazy_iter m st =
     st # concat (map (\<lambda>st'. if length (rest st') < length (rest st) then lazy_iter m st' else [])
                      (m st))"
  by pat_completeness auto
termination
  by (relation "measure (\<lambda>(m, st). length (rest st))") auto

declare star_iter.simps [simp del] lazy_iter.simps [simp del]

primrec matches :: "regex \<Rightarrow> mstate \<Rightarrow> mstate list" where
  "matches Bol st = (if pos st = 0 then [st] else [])"
| "matches Eol st = (if rest st = [] then [st] else [])"
| "matches (Chr p) st =
     (case rest st of
        [] \<Rightarrow> []
      | c # cs \<Rightarrow> if p c then [st\<lparr>pos := Suc (pos st), rest := cs\<rparr>] else [])"
| "matches Eps st = [st]"
| "matches (Seq a b) st = concat (map (matches b) (matches a st))"
| "matches (Alt a b) st = matches a st @ matches b st"
| "matches (Star a) st = star_iter (matches a) st"
| "matches (Lazy a) st = lazy_iter (matches a) st"
| "matches (Group n a) st =
     map (\<lambda>st'. st'\<lparr>caps := (caps st')(n \<mapsto> take (pos st' - pos st) (rest st))\<rparr>)
         (matches a st)"

definition Plus :: "regex \<Rightarrow> regex" where
  \<comment> \<open>\<^verbatim>\<open>a+\<close>, for \<open>a\<close> without groups\<close>
  "Plus r = Seq r (Star r)"

definition Opt :: "regex \<Rightarrow> regex" where
  \<comment> \<open>greedy \<^verbatim>\<open>a?\<close>, for \<open>a\<close> that consumes at least one character\<close>
  "Opt r = Alt r Eps"

fun seqs :: "regex list \<Rightarrow> regex" where
  "seqs [] = Eps"
| "seqs [r] = r"
| "seqs (r # rs) = Seq r (seqs rs)"

definition lit :: "char \<Rightarrow> regex" where
  "lit c = Chr (\<lambda>x. x = c)"

definition none_of :: "string \<Rightarrow> char \<Rightarrow> bool" where
  "none_of cs c = (c \<notin> set cs)"

definition ws :: "char \<Rightarrow> bool" where
  \<comment> \<open>\<^verbatim>\<open>\s\<close>: TAB, LF, VT, FF, CR, space and NBSP are the white space below code unit 256\<close>
  "ws c = (c \<in> set [CHR 0x09, CHR 0x0A, CHR 0x0B, CHR 0x0C, CHR 0x0D, CHR 0x20, CHR 0xA0])"

definition any_char :: "char \<Rightarrow> bool" where
  \<comment> \<open>\<^verbatim>\<open>[\s\S]\<close>\<close>
  "any_char c = (ws c \<or> \<not> ws c)"

definition dot :: "char \<Rightarrow> bool" where
  \<comment> \<open>\<^verbatim>\<open>.\<close>: anything but a line terminator\<close>
  "dot c = none_of [CHR 0x0A, CHR 0x0D] c"

subsection \<open>Case mapping\<close>

definition upper_char :: "char \<Rightarrow> char" where
  "upper_char c =
     (let n = of_char c :: nat
      in if (97 \<le> n \<and> n \<le> 122) \<or> (224 \<le> n \<and> n \<le> 254 \<and> n \<noteq> 247)
         then char_of (n - 32) else c)"

definition lower_char :: "char \<Rightarrow> char" where
  "lower_char c =
     (let n = of_char c :: nat
      in if (65 \<le> n \<and> n \<le> 90) \<or> (192 \<le> n \<and> n \<le> 222 \<and> n \<noteq> 215)
         then char_of (n + 32) else c)"

definition toLowerCase :: "string \<Rightarrow> string" where
  "toLowerCase s = map lower_char s"

definition ci :: "char \<Rightarrow> regex" where
  \<comment> \<open>a pattern character under the \<^verbatim>\<open>i\<close> flag: equal after canonicalisation to upper case\<close>
  "ci c = Chr (\<lambda>x. upper_char x = upper_char c)"

subsection \<open>exec, match, search, test\<close>

record rmatch =
  index :: nat
  whole :: string
  groups :: captures

function exec_from :: "regex \<Rightarrow> string \<Rightarrow> nat \<Rightarrow> rmatch option" where
  "exec_from r s i =
     (if length s < i then None
      else case matches r \<lparr>pos = i, rest = drop i s, caps = Map.empty\<rparr> of
             [] \<Rightarrow> exec_from r s (Suc i)
           | st # _ \<Rightarrow> Some \<lparr>index = i, whole = take (pos st - i) (drop i s), groups = caps st\<rparr>)"
  by pat_completeness auto
termination
  by (relation "measure (\<lambda>(r, s, i). Suc (length s) - i)") auto

declare exec_from.simps [simp del]

definition exec :: "regex \<Rightarrow> string \<Rightarrow> rmatch option" where
  \<comment> \<open>\<^verbatim>\<open>s.match(r)\<close> for a pattern without the \<^verbatim>\<open>g\<close> flag\<close>
  "exec r s = exec_from r s 0"

definition search :: "string \<Rightarrow> regex \<Rightarrow> int" where
  \<comment> \<open>\<^verbatim>\<open>s.search(r)\<close>\<close>
  "search s r = (case exec r s of None \<Rightarrow> - 1 | Some m \<Rightarrow> int (index m))"

definition exec_at :: "regex \<Rightarrow> string \<Rightarrow> nat \<Rightarrow> rmatch option" where
  \<comment> \<open>one attempt at the position \<open>i\<close>, the only one a pattern with the \<^verbatim>\<open>y\<close> flag makes\<close>
  "exec_at r s i =
     (if length s < i then None
      else case matches r \<lparr>pos = i, rest = drop i s, caps = Map.empty\<rparr> of
             [] \<Rightarrow> None
           | st # _ \<Rightarrow> Some \<lparr>index = i, whole = take (pos st - i) (drop i s), groups = caps st\<rparr>)"

definition test :: "regex \<Rightarrow> bool \<Rightarrow> bool \<Rightarrow> string \<Rightarrow> nat \<Rightarrow> bool \<times> nat" where
  \<comment> \<open>\<^verbatim>\<open>r.test(s)\<close>, from and to \<^verbatim>\<open>r.lastIndex\<close>. Under the \<^verbatim>\<open>y\<close> flag the one attempt
      is made at \<^verbatim>\<open>lastIndex\<close>, under the \<^verbatim>\<open>g\<close> flag alone the search starts there; in
      both cases \<^verbatim>\<open>lastIndex\<close> moves to the end of the match or back to 0. Without
      either flag \<^verbatim>\<open>lastIndex\<close> is neither read nor written.\<close>
  "test r global sticky s lastIndex =
     (if sticky
      then (case exec_at r s lastIndex of
              None \<Rightarrow> (False, 0)
            | Some m \<Rightarrow> (True, index m + length (whole m)))
      else if global
      then (case exec_from r s lastIndex of
              None \<Rightarrow> (False, 0)
            | Some m \<Rightarrow> (True, index m + length (whole m)))
      else (exec r s \<noteq> None, lastIndex))"

definition capture :: "rmatch \<Rightarrow> nat \<Rightarrow> string" where
  \<comment> \<open>\<^verbatim>\<open>match[n]\<close> of a group that takes part in every match of its pattern\<close>
  "capture m n = (case groups m n of Some x \<Rightarrow> x | None \<Rightarrow> [])"

section \<open>The patterns of the module\<close>

definition startTag :: regex where
  "startTag = seqs [Bol, lit CHR ''<'',
     Group 1 (Plus (Chr (\<lambda>c. \<not> ws c \<and> none_of ''=/!>'' c))),
     Group 2 (Star (seqs [Plus (Chr ws), Plus (Chr (\<lambda>c. \<not> ws c \<and> none_of ''=/>'' c)),
        Opt (seqs [Star (Chr ws), lit CHR ''='', Star (Chr ws),
          Opt (Alt (seqs [lit CHR 0x22, Star (Chr (none_of [CHR 0x22])), lit CHR 0x22])
              (Alt (seqs [lit CHR 0x27, Star (Chr (none_of [CHR 0x27])), lit CHR 0x27])
                   (Plus (Chr (\<lambda>c. none_of ''>'' c \<and> \<not> ws c)))))])])),
     Star (Chr ws), Group 3 (Opt (lit CHR ''/'')), Star (Chr ws), lit CHR ''>'']"

definition endTag :: regex where
  "endTag = seqs [Bol, lit CHR ''<'', lit CHR ''/'',
     Group 1 (Plus (Chr (\<lambda>c. \<not> ws c \<and> none_of ''=/!>'' c))),
     Star (Chr (none_of ''>'')), lit CHR ''>'']"

definition comment :: regex where
  "comment = seqs [Bol, lit CHR ''<'', lit CHR ''!'', lit CHR ''-'', lit CHR ''-'',
     Group 1 (Lazy (Chr any_char)), lit CHR ''-'', lit CHR ''-'', lit CHR ''>'']"

definition commentInside :: regex where
  "commentInside = seqs [lit CHR ''<'', lit CHR ''!'', lit CHR ''-'', lit CHR ''-'',
     Lazy (Chr any_char), lit CHR ''-'', lit CHR ''-'', lit CHR ''>'']"

definition other :: regex where
  "other = seqs [Bol, lit CHR ''<'', Group 1 (Lazy (Chr any_char)), lit CHR ''>'']"

definition attr :: regex where
  "attr = seqs [Group 1 (Plus (Chr (\<lambda>c. \<not> ws c \<and> none_of ''='' c))),
     Opt (seqs [Star (Chr ws), Group 2 (lit CHR ''=''), Star (Chr ws),
       Opt (Alt (seqs [lit CHR 0x22,
                       Group 3 (Star (Alt (Seq (lit CHR 0x5C) (Chr dot)) (Chr (none_of [CHR 0x22])))),
                       lit CHR 0x22])
           (Alt (seqs [lit CHR 0x27,
                       Group 4 (Star (Alt (Seq (lit CHR 0x5C) (Chr dot)) (Chr (none_of [CHR 0x27])))),
                       lit CHR 0x27])
                (Group 5 (Plus (Chr (\<lambda>c. none_of ''>'' c \<and> \<not> ws c))))))])]"

definition rawTagsDefault :: regex where
  "rawTagsDefault = seqs [Bol, Group 1 (Alt (seqs (map ci ''style'')) (seqs (map ci ''script''))), Eol]"

definition matchEndDefault :: "string \<Rightarrow> regex" where
  \<comment> \<open>\<^verbatim>\<open>new RegExp('</' + tagName, 'i')\<close> for a tag name free of pattern syntax, as the
      names \<open>rawTagsDefault\<close> accepts are. For another name, which only a custom
      \<^verbatim>\<open>rawTags\<close> lets through, the constructor reads the name as a pattern or throws,
      and this definition does not apply.\<close>
  "matchEndDefault tagName = seqs (map ci (''</'' @ tagName))"

section \<open>Values handed to the callbacks\<close>

datatype js_value = Null | Str string

text \<open>
  \<^verbatim>\<open>attrs = {}\<close> is an ordinary object: its own properties in insertion order, and the
  link to \<^verbatim>\<open>Object.prototype\<close>. As long as the link is there, an assignment to the key
  \<^verbatim>\<open>__proto__\<close> runs the inherited setter instead of creating a property: \<^verbatim>\<open>null\<close>
  cuts the link, a string is ignored.
\<close>

record js_object =
  props :: "(string \<times> js_value) list"
  has_proto :: bool

definition new_object :: js_object where
  "new_object = \<lparr>props = [], has_proto = True\<rparr>"

fun update_prop :: "string \<Rightarrow> js_value \<Rightarrow> (string \<times> js_value) list \<Rightarrow> (string \<times> js_value) list" where
  "update_prop k v [] = [(k, v)]"
| "update_prop k v (p # ps) = (if fst p = k then (k, v) # ps else p # update_prop k v ps)"

definition obj_set :: "js_object \<Rightarrow> string \<Rightarrow> js_value \<Rightarrow> js_object" where
  \<comment> \<open>\<^verbatim>\<open>obj[k] = v\<close>\<close>
  "obj_set obj k v =
     (if k = ''__proto__'' \<and> has_proto obj
      then (case v of Null \<Rightarrow> obj\<lparr>has_proto := False\<rparr> | Str _ \<Rightarrow> obj)
      else obj\<lparr>props := update_prop k v (props obj)\<rparr>)"

definition own :: "js_object \<Rightarrow> string \<Rightarrow> js_value option" where
  \<comment> \<open>the own property \<open>k\<close> of the object, if it has one\<close>
  "own obj k = map_of (props obj) k"

datatype event =
    Start string string js_object string   \<comment> \<open>\<^verbatim>\<open>start(tag, tagName, attrs, html)\<close>\<close>
  | End string string string               \<comment> \<open>\<^verbatim>\<open>end(tag, data, html)\<close>\<close>
  | Text string bool string                \<comment> \<open>\<^verbatim>\<open>text(text, isRawText, html)\<close>\<close>
  | Comment string string string           \<comment> \<open>\<^verbatim>\<open>comment(tag, data, html)\<close>\<close>
  | Other string string string             \<comment> \<open>\<^verbatim>\<open>other(tag, data, html)\<close>\<close>
  | Error string                           \<comment> \<open>\<^verbatim>\<open>error(err)\<close>, with \<^verbatim>\<open>err.message\<close>\<close>

section \<open>String primitives\<close>

definition slice_from :: "string \<Rightarrow> int \<Rightarrow> string" where
  \<comment> \<open>\<^verbatim>\<open>s.slice(i)\<close>: a negative index counts from the end\<close>
  "slice_from s i = (if i < 0 then drop (nat (int (length s) + i)) s else drop (nat i) s)"

definition slice_to :: "string \<Rightarrow> int \<Rightarrow> string" where
  \<comment> \<open>\<^verbatim>\<open>s.slice(0, j)\<close>\<close>
  "slice_to s j = (if j < 0 then take (nat (int (length s) + j)) s else take (nat j) s)"

fun indexOf :: "string \<Rightarrow> char \<Rightarrow> int" where
  "indexOf [] c = - 1"
| "indexOf (x # xs) c = (if x = c then 0 else (let i = indexOf xs c in if i = - 1 then - 1 else i + 1))"

section \<open>What a match consumes\<close>

text \<open>
  Both repetitions keep every relation that the repeated pattern keeps and that is
  reflexive and transitive.
\<close>

lemma star_iter_rel:
  "(\<And>a b. b \<in> set (m a) \<Longrightarrow> R a b) \<Longrightarrow> (\<And>a. R a a) \<Longrightarrow>
   (\<And>a b c. R a b \<Longrightarrow> R b c \<Longrightarrow> R a c) \<Longrightarrow> st' \<in> set (star_iter m st) \<Longrightarrow> R st st'"
proof (induction m st arbitrary: st' rule: star_iter.induct)
  case (1 m st)
  from "1.prems"(4) have "st' = st \<or> (\<exists>x \<in> set (m st). length (rest x) < length (rest st)
      \<and> st' \<in> set (star_iter m x))"
    by (subst (asm) star_iter.simps) (auto split: if_splits)
  then show ?case
  proof
    assume "st' = st"
    then show ?thesis by (simp add: "1.prems"(2))
  next
    assume "\<exists>x \<in> set (m st). length (rest x) < length (rest st) \<and> st' \<in> set (star_iter m x)"
    then obtain x where x: "x \<in> set (m st)" "length (rest x) < length (rest st)"
      "st' \<in> set (star_iter m x)" by blast
    have "R x st'"
      by (rule "1.IH" [OF x(1) x(2) "1.prems"(1) "1.prems"(2) "1.prems"(3) x(3)])
    with "1.prems"(1) [OF x(1)] show ?thesis by (rule "1.prems"(3))
  qed
qed

lemma lazy_iter_rel:
  "(\<And>a b. b \<in> set (m a) \<Longrightarrow> R a b) \<Longrightarrow> (\<And>a. R a a) \<Longrightarrow>
   (\<And>a b c. R a b \<Longrightarrow> R b c \<Longrightarrow> R a c) \<Longrightarrow> st' \<in> set (lazy_iter m st) \<Longrightarrow> R st st'"
proof (induction m st arbitrary: st' rule: lazy_iter.induct)
  case (1 m st)
  from "1.prems"(4) have "st' = st \<or> (\<exists>x \<in> set (m st). length (rest x) < length (rest st)
      \<and> st' \<in> set (lazy_iter m x))"
    by (subst (asm) lazy_iter.simps) (auto split: if_splits)
  then show ?case
  proof
    assume "st' = st"
    then show ?thesis by (simp add: "1.prems"(2))
  next
    assume "\<exists>x \<in> set (m st). length (rest x) < length (rest st) \<and> st' \<in> set (lazy_iter m x)"
    then obtain x where x: "x \<in> set (m st)" "length (rest x) < length (rest st)"
      "st' \<in> set (lazy_iter m x)" by blast
    have "R x st'"
      by (rule "1.IH" [OF x(1) x(2) "1.prems"(1) "1.prems"(2) "1.prems"(3) x(3)])
    with "1.prems"(1) [OF x(1)] show ?thesis by (rule "1.prems"(3))
  qed
qed

definition consumes :: "mstate \<Rightarrow> mstate \<Rightarrow> bool" where
  "consumes st st' = (\<exists>us. rest st = us @ rest st' \<and> pos st' = pos st + length us)"

lemma consumes_refl: "consumes st st"
  by (simp add: consumes_def)

lemma consumes_trans: "consumes a b \<Longrightarrow> consumes b c \<Longrightarrow> consumes a c"
  by (auto simp: consumes_def)

lemma consumes_caps: "consumes st st' \<Longrightarrow> consumes st (st'\<lparr>caps := c\<rparr>)"
  by (simp add: consumes_def)

lemma matches_consumes: "st' \<in> set (matches r st) \<Longrightarrow> consumes st st'"
proof (induction r arbitrary: st st')
  case (Chr p)
  then show ?case
    by (cases "rest st") (auto simp: consumes_def split: if_splits)
next
  case (Seq a b)
  from Seq.prems obtain x where "x \<in> set (matches a st)" "st' \<in> set (matches b x)"
    by auto
  with Seq.IH show ?case by (blast intro: consumes_trans)
next
  case (Star a)
  from Star.prems have "st' \<in> set (star_iter (matches a) st)" by simp
  then show ?case
    by (rule star_iter_rel [where R = consumes, rotated 3])
       (blast intro: Star.IH consumes_refl consumes_trans)+
next
  case (Lazy a)
  from Lazy.prems have "st' \<in> set (lazy_iter (matches a) st)" by simp
  then show ?case
    by (rule lazy_iter_rel [where R = consumes, rotated 3])
       (blast intro: Lazy.IH consumes_refl consumes_trans)+
next
  case (Group n a)
  then show ?case by (auto intro: consumes_caps)
qed (auto simp: consumes_refl split: if_splits)

lemma matches_Chr_Seq_advances:
  assumes "st' \<in> set (matches (Seq (Chr p) r) st)"
  shows "pos st < pos st'"
proof -
  from assms obtain x where x: "x \<in> set (matches (Chr p) st)" "st' \<in> set (matches r x)"
    by auto
  from x(1) have "pos x = Suc (pos st)"
    by (cases "rest st") (auto split: if_splits)
  moreover from matches_consumes [OF x(2)] have "pos x \<le> pos st'"
    by (auto simp: consumes_def)
  ultimately show ?thesis by simp
qed

lemma take_drop_length_take: "take k xs @ drop (length (take k xs)) xs = xs"
  by (cases "k \<le> length xs") (simp_all add: min_def)

lemma exec_from_SomeD:
  assumes "exec_from r s i = Some m"
  shows "\<exists>st sts. matches r \<lparr>pos = index m, rest = drop (index m) s, caps = Map.empty\<rparr> = st # sts
           \<and> whole m = take (pos st - index m) (drop (index m) s) \<and> groups m = caps st
           \<and> i \<le> index m \<and> index m \<le> length s"
  using assms
proof (induction r s i rule: exec_from.induct)
  case (1 r s i)
  show ?case
  proof (cases "matches r \<lparr>pos = i, rest = drop i s, caps = Map.empty\<rparr>")
    case Nil
    with "1.prems" have "\<not> length s < i" and "exec_from r s (Suc i) = Some m"
      by (auto simp: exec_from.simps [of r s i] split: if_splits)
    with "1.IH" Nil show ?thesis by fastforce
  next
    case (Cons st sts)
    with "1.prems" show ?thesis
      by (auto simp: exec_from.simps [of r s i] split: if_splits)
  qed
qed

lemma exec_from_whole:
  assumes "exec_from r s i = Some m"
  shows "drop (index m) s = whole m @ drop (index m + length (whole m)) s"
proof -
  from exec_from_SomeD [OF assms] obtain st sts where
    st: "matches r \<lparr>pos = index m, rest = drop (index m) s, caps = Map.empty\<rparr> = st # sts"
    and w: "whole m = take (pos st - index m) (drop (index m) s)" by blast
  have "whole m @ drop (length (whole m)) (drop (index m) s) = drop (index m) s"
    unfolding w by (rule take_drop_length_take)
  then show ?thesis by (simp add: add.commute)
qed

lemma exec_from_Chr_Seq_nonempty:
  assumes "exec_from (Seq (Chr p) r) s i = Some m"
  shows "whole m \<noteq> []"
proof -
  from exec_from_SomeD [OF assms] obtain st sts where
    st: "matches (Seq (Chr p) r) \<lparr>pos = index m, rest = drop (index m) s, caps = Map.empty\<rparr> = st # sts"
    and w: "whole m = take (pos st - index m) (drop (index m) s)" by blast
  let ?st0 = "\<lparr>pos = index m, rest = drop (index m) s, caps = Map.empty\<rparr>"
  have mem: "st \<in> set (matches (Seq (Chr p) r) ?st0)" using st by simp
  from matches_Chr_Seq_advances [OF mem] have adv: "index m < pos st" by simp
  from matches_consumes [OF mem] obtain us where
    us: "drop (index m) s = us @ rest st" "pos st = index m + length us"
    by (auto simp: consumes_def)
  from adv us(2) have "us \<noteq> []" by auto
  with us w show ?thesis by (cases us) auto
qed

lemma commentInside_nonempty: "exec commentInside s = Some m \<Longrightarrow> whole m \<noteq> []"
  unfolding exec_def commentInside_def lit_def seqs.simps
  by (rule exec_from_Chr_Seq_nonempty)

section \<open>The replace loop over \<^verbatim>\<open>attr\<close>\<close>

text \<open>
  \<^verbatim>\<open>attr\<close> carries the \<^verbatim>\<open>g\<close> flag, so the pattern object has a \<^verbatim>\<open>lastIndex\<close> that
  outlives a call of \<open>parse\<close>; it is the only mutable state of the module itself.
  \<^verbatim>\<open>String.prototype.replace\<close> with a global pattern sets \<^verbatim>\<open>lastIndex\<close> to 0, calls the
  function once per successive match (an empty match advances by one), and leaves
  \<^verbatim>\<open>lastIndex\<close> at 0 after the failing last attempt.
\<close>

function global_matches :: "regex \<Rightarrow> string \<Rightarrow> nat \<Rightarrow> rmatch list" where
  "global_matches r s i =
     (case exec_from r s i of
        None \<Rightarrow> []
      | Some m \<Rightarrow> m # global_matches r s (if whole m = [] then Suc (index m)
                                            else index m + length (whole m)))"
  by pat_completeness auto
termination
proof (relation "measure (\<lambda>(r, s, i). Suc (length s) - i)", goal_cases)
  case 1
  show ?case by simp
next
  case (2 r s i m)
  from exec_from_SomeD [OF 2] have "i \<le> index m" "index m \<le> length s" by auto
  then show ?case by (cases "whole m") auto
qed

declare global_matches.simps [simp del]

definition replace_attr :: "string \<Rightarrow> nat \<Rightarrow> rmatch list \<times> nat" where
  \<comment> \<open>the calls \<^verbatim>\<open>remainder.replace(attr, f)\<close> makes to \<open>f\<close>, from and to \<^verbatim>\<open>attr.lastIndex\<close>\<close>
  "replace_attr remainder lastIndex = (global_matches attr remainder 0, 0)"

section \<open>The functions of \<^verbatim>\<open>lib/parse.js\<close>\<close>

definition truthy :: "string option \<Rightarrow> bool" where
  \<comment> \<open>\<^verbatim>\<open>undefined\<close> and the empty string are falsy\<close>
  "truthy x = (case x of None \<Rightarrow> False | Some s \<Rightarrow> s \<noteq> [])"

definition attr_value :: "rmatch \<Rightarrow> js_value" where
  \<comment> \<open>\<^verbatim>\<open>attr0 || attr1 || attr2 || (equals ? '' : null)\<close>\<close>
  "attr_value m =
     (if truthy (groups m 3) then Str (capture m 3)
      else if truthy (groups m 4) then Str (capture m 4)
      else if truthy (groups m 5) then Str (capture m 5)
      else if truthy (groups m 2) then Str [] else Null)"

definition set_attr :: "js_object \<Rightarrow> rmatch \<Rightarrow> js_object" where
  "set_attr attrs m = obj_set attrs (toLowerCase (capture m 1)) (attr_value m)"

definition onStartTag :: "string \<Rightarrow> rmatch \<Rightarrow> nat \<Rightarrow> event \<times> string \<times> nat" where
  "onStartTag html m lastIndex =
     (let tag = whole m;
          tagName = capture m 1;
          remainder = capture m 2;
          html' = drop (length tag) html;
          (ms, lastIndex') = replace_attr remainder lastIndex;
          attrs = foldl set_attr new_object ms
      in (Start tag (toLowerCase tagName) attrs html', html', lastIndex'))"

definition onTag :: "string \<Rightarrow> rmatch \<Rightarrow> (string \<Rightarrow> string \<Rightarrow> string \<Rightarrow> event) \<Rightarrow> event \<times> string" where
  "onTag html m handler =
     (let tag = whole m;
          data = capture m 1;
          html' = drop (length tag) html
      in (handler tag data html', html'))"

definition onText :: "string \<Rightarrow> int \<Rightarrow> bool \<Rightarrow> event list \<times> string" where
  "onText html i isRawText =
     (let (text, html') = (if i \<noteq> - 1 then (slice_to html i, slice_from html i) else (html, []))
      in (if text \<noteq> [] then [Text text isRawText html'] else [], html'))"

subsection \<open>The raw-text scanner\<close>

function rawEnd :: "string \<Rightarrow> regex \<Rightarrow> int \<Rightarrow> int" where
  "rawEnd html ending offset =
     (case exec commentInside html of
        None \<Rightarrow> search html ending + offset
      | Some commentMatch \<Rightarrow>
          if int (index commentMatch) < search html ending
          then rawEnd (drop (index commentMatch + length (whole commentMatch)) html) ending
                      (offset + int (index commentMatch + length (whole commentMatch)))
          else search html ending + offset)"
  by pat_completeness auto
termination
proof (relation "measure (\<lambda>(html, ending, offset). length html)", goal_cases)
  case 1
  show ?case by simp
next
  case (2 html ending offset m)
  from commentInside_nonempty [OF 2(1)] have w: "whole m \<noteq> []" .
  from 2(1) have "drop (index m) html = whole m @ drop (index m + length (whole m)) html"
    unfolding exec_def by (rule exec_from_whole)
  with w have "html \<noteq> []" by auto
  with w show ?case by simp
qed

declare rawEnd.simps [simp del]

subsection \<open>The cursor loop\<close>

text \<open>
  The options that steer the loop. The five handlers \<^verbatim>\<open>start\<close>, \<^verbatim>\<open>end\<close>, \<^verbatim>\<open>text\<close>,
  \<^verbatim>\<open>comment\<close> and \<^verbatim>\<open>other\<close> only observe (an unset one is the function \<^verbatim>\<open>empty\<close>):
  every call to one of them is recorded as an \<^typ>\<open>event\<close>. \<open>errorHandler\<close> tells whether
  \<^verbatim>\<open>options.error\<close> is set, \<open>rawTags_global\<close> and \<open>rawTags_sticky\<close> whether
  \<^verbatim>\<open>options.rawTags\<close> carries the \<^verbatim>\<open>g\<close> and the \<^verbatim>\<open>y\<close> flag. The pattern \<^verbatim>\<open>matchEnd\<close>
  returns is used by \<^verbatim>\<open>search\<close> only, which starts at 0 and restores \<^verbatim>\<open>lastIndex\<close>
  whatever the flags; a sticky one is the pattern with \<open>Bol\<close> in front.

  Two pattern objects outlive a call of \<open>parse\<close> and have a \<^verbatim>\<open>lastIndex\<close> that the
  call may write: \<^verbatim>\<open>attr\<close> of the module and \<^verbatim>\<open>options.rawTags\<close>.
\<close>

record config =
  errorHandler :: bool
  matchEnd :: "string \<Rightarrow> regex"
  rawTags :: regex
  rawTags_global :: bool
  rawTags_sticky :: bool

definition default_config :: config where
  "default_config = \<lparr>errorHandler = False, matchEnd = matchEndDefault,
     rawTags = rawTagsDefault, rawTags_global = False, rawTags_sticky = False\<rparr>"

record hidden =
  attr_lastIndex :: nat            \<comment> \<open>\<^verbatim>\<open>attr.lastIndex\<close>\<close>
  rawTags_lastIndex :: nat         \<comment> \<open>\<^verbatim>\<open>options.rawTags.lastIndex\<close>\<close>

definition fresh :: hidden where
  \<comment> \<open>both patterns as they are created\<close>
  "fresh = \<lparr>attr_lastIndex = 0, rawTags_lastIndex = 0\<rparr>"

record pstate =
  st_html :: string
  st_last :: "string option"       \<comment> \<open>\<^verbatim>\<open>undefined\<close> before the first iteration\<close>
  st_trace :: "event list"         \<comment> \<open>the callbacks invoked so far\<close>
  st_hidden :: hidden

definition plain_text :: "string \<Rightarrow> event list \<times> string" where
  \<comment> \<open>the last two statements of the loop body\<close>
  "plain_text html = onText html (indexOf html CHR ''<'') False"

definition lower_name :: "rmatch \<Rightarrow> rmatch" where
  \<comment> \<open>\<^verbatim>\<open>match[1] = match[1].toLowerCase()\<close>\<close>
  "lower_name m = m\<lparr>groups := (groups m)(1 \<mapsto> toLowerCase (capture m 1))\<rparr>"

definition dispatch :: "config \<Rightarrow> string \<Rightarrow> hidden \<Rightarrow> event list \<times> string \<times> hidden" where
  "dispatch cfg html h =
     (if take 1 html = ''<'' then
        (case exec startTag html of
           Some m \<Rightarrow>
             (let (ev, html1, lastIndex') = onStartTag html m (attr_lastIndex h);
                  tagName = capture m 1;
                  (raw, rawIndex') =
                     test (rawTags cfg) (rawTags_global cfg) (rawTags_sticky cfg) tagName
                          (rawTags_lastIndex h);
                  h' = \<lparr>attr_lastIndex = lastIndex', rawTags_lastIndex = rawIndex'\<rparr>
              in if raw
                 then (let i = rawEnd html1 (matchEnd cfg tagName) 0;
                           (evs, html2) = onText html1 i True
                       in (ev # evs, html2, h'))
                 else ([ev], html1, h'))
         | None \<Rightarrow>
        (case exec endTag html of
           Some m \<Rightarrow> (let (ev, html1) = onTag html (lower_name m) End in ([ev], html1, h))
         | None \<Rightarrow>
        (case exec comment html of
           Some m \<Rightarrow> (let (ev, html1) = onTag html m Comment in ([ev], html1, h))
         | None \<Rightarrow>
        (case exec other html of
           Some m \<Rightarrow> (let (ev, html1) = onTag html m Other in ([ev], html1, h))
         | None \<Rightarrow>
             (let (evs, html1) = plain_text html in (evs, html1, h))))))
      else (let (evs, html1) = plain_text html in (evs, html1, h)))"

definition parse_error :: "string \<Rightarrow> string" where
  "parse_error html = ''HTML parse error: '' @ html"

definition iteration :: "config \<Rightarrow> pstate \<Rightarrow> string + pstate" where
  \<comment> \<open>one turn of the \<^verbatim>\<open>while\<close> loop; \<open>Inl\<close> is the \<^verbatim>\<open>throw\<close>\<close>
  "iteration cfg st =
     (if st_last st = Some (st_html st) \<and> \<not> errorHandler cfg
      then Inl (parse_error (st_html st))
      else (let tr = (if st_last st = Some (st_html st)
                      then st_trace st @ [Error (parse_error (st_html st))]
                      else st_trace st);
                (evs, html', h') = dispatch cfg (st_html st) (st_hidden st)
            in Inr \<lparr>st_html = html', st_last = Some (st_html st), st_trace = tr @ evs,
                    st_hidden = h'\<rparr>))"

datatype outcome =
    Returned pstate          \<comment> \<open>the loop ended: \<open>parse\<close> returns\<close>
  | Threw string pstate      \<comment> \<open>\<open>parse\<close> raised the error with this message\<close>
  | Running pstate           \<comment> \<open>still in the loop after the given number of iterations\<close>

fun loop :: "nat \<Rightarrow> config \<Rightarrow> pstate \<Rightarrow> outcome" where
  "loop 0 cfg st = (if st_html st = [] then Returned st else Running st)"
| "loop (Suc n) cfg st =
     (if st_html st = [] then Returned st
      else case iteration cfg st of
             Inl err \<Rightarrow> Threw err st
           | Inr st' \<Rightarrow> loop n cfg st')"

definition parse :: "nat \<Rightarrow> config \<Rightarrow> hidden \<Rightarrow> string \<Rightarrow> outcome" where
  \<comment> \<open>\<open>parse n cfg h html\<close>: the call \<^verbatim>\<open>parse(html, options)\<close> made when the two pattern
      objects are in the state \<open>h\<close>, followed for at most \<open>n\<close> iterations\<close>
  "parse n cfg h html =
     (if html = []
      then Returned \<lparr>st_html = html, st_last = None, st_trace = [], st_hidden = h\<rparr>
      else loop n cfg \<lparr>st_html = html, st_last = None, st_trace = [], st_hidden = h\<rparr>)"

definition final :: "outcome \<Rightarrow> pstate" where
  "final out = (case out of Returned st \<Rightarrow> st | Threw err st \<Rightarrow> st | Running st \<Rightarrow> st)"

definition calls :: "outcome \<Rightarrow> event list" where
  \<comment> \<open>the callback invocations of a run, in order\<close>
  "calls out = st_trace (final out)"

section \<open>What a run shows to its caller\<close>

fun is_error :: "event \<Rightarrow> bool" where
  "is_error (Error e) = True"
| "is_error _ = False"

fun first_arg :: "event \<Rightarrow> string" where
  "first_arg (Start tag tagName attrs html) = tag"
| "first_arg (End tag data html) = tag"
| "first_arg (Text text isRawText html) = text"
| "first_arg (Comment tag data html) = tag"
| "first_arg (Other tag data html) = tag"
| "first_arg (Error e) = e"

fun remainder_arg :: "event \<Rightarrow> string option" where
  "remainder_arg (Start tag tagName attrs html) = Some html"
| "remainder_arg (End tag data html) = Some html"
| "remainder_arg (Text text isRawText html) = Some html"
| "remainder_arg (Comment tag data html) = Some html"
| "remainder_arg (Other tag data html) = Some html"
| "remainder_arg (Error e) = None"

fun is_raw_text :: "event \<Rightarrow> bool" where
  "is_raw_text (Text text isRawText html) = isRawText"
| "is_raw_text _ = False"

definition covered :: "event list \<Rightarrow> string" where
  \<comment> \<open>the first arguments of the start, end, text, comment and other calls, concatenated\<close>
  "covered tr = concat (map first_arg (filter (\<lambda>e. \<not> is_error e) tr))"

definition remainders :: "event list \<Rightarrow> string list" where
  \<comment> \<open>the last arguments of the start, end, text, comment and other calls, in order\<close>
  "remainders tr = concat (map (\<lambda>e. case remainder_arg e of None \<Rightarrow> [] | Some r \<Rightarrow> [r]) tr)"

fun shrinking :: "string \<Rightarrow> string list \<Rightarrow> bool" where
  "shrinking s [] = True"
| "shrinking s (r # rs) = (suffix r s \<and> shrinking r rs)"

definition decoder :: "regex \<Rightarrow> bool" where
  \<comment> \<open>the four patterns the loop tries at a \<^verbatim>\<open><\<close>\<close>
  "decoder r = (r = startTag \<or> r = endTag \<or> r = comment \<or> r = other)"

definition lossless :: "string \<Rightarrow> event list \<Rightarrow> string \<Rightarrow> bool" where
  \<comment> \<open>the calls \<open>evs\<close> took the cursor from \<open>html\<close> to \<open>html'\<close> without gap or overlap\<close>
  "lossless html evs html' =
     (covered evs @ html' = html \<and> shrinking html (remainders evs @ [html']))"

definition productive :: "event list \<Rightarrow> bool" where
  "productive evs = (\<forall>e \<in> set evs. \<not> is_error e \<and> first_arg e \<noteq> [])"

definition forget :: "pstate \<Rightarrow> pstate" where
  \<comment> \<open>the state of a run without the state of the pattern objects\<close>
  "forget st = st\<lparr>st_hidden := fresh\<rparr>"

definition report :: "outcome \<Rightarrow> outcome" where
  \<comment> \<open>what a caller can see of a run: how it ended, the calls, the cursor\<close>
  "report out = (case out of Returned st \<Rightarrow> Returned (forget st)
                 | Threw err st \<Rightarrow> Threw err (forget st)
                 | Running st \<Rightarrow> Running (forget st))"

definition stateless_rawTags :: "config \<Rightarrow> bool" where
  \<comment> \<open>\<^verbatim>\<open>options.rawTags\<close> carries neither the \<^verbatim>\<open>g\<close> nor the \<^verbatim>\<open>y\<close> flag\<close>
  "stateless_rawTags cfg = (\<not> rawTags_global cfg \<and> \<not> rawTags_sticky cfg)"

definition potential :: "pstate \<Rightarrow> nat" where
  \<comment> \<open>a bound on the iterations left when no error handler is set\<close>
  "potential st = 2 * length (st_html st) + (if st_last st = Some (st_html st) then 0 else 1)"

subsection \<open>Groups that take part in a match\<close>

primrec poss :: "regex \<Rightarrow> nat set set" where
  "poss Bol = {{}}"
| "poss Eol = {{}}"
| "poss (Chr p) = {{}}"
| "poss Eps = {{}}"
| "poss (Seq a b) = (\<Union>A \<in> poss a. (\<lambda>B. A \<union> B) ` poss b)"
| "poss (Alt a b) = poss a \<union> poss b"
| "poss (Star a) = Union ` Pow (poss a)"
| "poss (Lazy a) = Union ` Pow (poss a)"
| "poss (Group n a) = insert n ` poss a"

primrec groups_of :: "regex \<Rightarrow> nat set" where
  "groups_of Bol = {}"
| "groups_of Eol = {}"
| "groups_of (Chr p) = {}"
| "groups_of Eps = {}"
| "groups_of (Seq a b) = groups_of a \<union> groups_of b"
| "groups_of (Alt a b) = groups_of a \<union> groups_of b"
| "groups_of (Star a) = groups_of a"
| "groups_of (Lazy a) = groups_of a"
| "groups_of (Group n a) = insert n (groups_of a)"

definition grows :: "regex \<Rightarrow> mstate \<Rightarrow> mstate \<Rightarrow> bool" where
  "grows a x y = (\<exists>S. S \<subseteq> poss a \<and> dom (caps y) = dom (caps x) \<union> \<Union>S)"

subsection \<open>The decoding rule for attributes, in the words of the specification\<close>

text \<open>
  A value captured in any of the three forms is stored as it is; an \<^verbatim>\<open>=\<close> without a
  captured value gives the empty string; no \<^verbatim>\<open>=\<close> gives null; of several occurrences
  of a name the last one counts.
\<close>

definition captured_value :: "rmatch \<Rightarrow> string option" where
  "captured_value m =
     (case groups m 3 of Some v \<Rightarrow> Some v
      | None \<Rightarrow> (case groups m 4 of Some v \<Rightarrow> Some v | None \<Rightarrow> groups m 5))"

definition spec_attr_value :: "rmatch \<Rightarrow> js_value" where
  "spec_attr_value m =
     (case captured_value m of
        Some v \<Rightarrow> Str v
      | None \<Rightarrow> (case groups m 2 of Some e \<Rightarrow> Str [] | None \<Rightarrow> Null))"

fun last_occurrence :: "string \<Rightarrow> rmatch list \<Rightarrow> rmatch option" where
  "last_occurrence k [] = None"
| "last_occurrence k (m # ms) =
     (case last_occurrence k ms of
        Some a \<Rightarrow> Some a
      | None \<Rightarrow> if toLowerCase (capture m 1) = k then Some m else None)"

section \<open>Spans and remainders of one iteration\<close>

lemma covered_simps [simp]:
  "covered [] = []"
  "covered (e # es) = (if is_error e then covered es else first_arg e @ covered es)"
  "covered (xs @ ys) = covered xs @ covered ys"
  by (simp_all add: covered_def)

lemma remainders_simps [simp]:
  "remainders [] = []"
  "remainders (e # es) = (case remainder_arg e of None \<Rightarrow> remainders es | Some r \<Rightarrow> r # remainders es)"
  "remainders (xs @ ys) = remainders xs @ remainders ys"
  by (simp_all add: remainders_def split: option.splits)

lemma shrinking_append:
  "shrinking s (xs @ [h]) \<Longrightarrow> shrinking h ys \<Longrightarrow> shrinking s (xs @ ys)"
proof (induction xs arbitrary: s)
  case Nil
  then show ?case by (cases ys) (auto intro: suffix_order.trans)
next
  case (Cons x xs)
  then show ?case by simp
qed

lemma slice_split: "slice_to s i @ slice_from s i = s"
  by (simp add: slice_to_def slice_from_def)

lemma slice_from_suffix: "suffix (slice_from s i) s"
  by (simp add: slice_from_def suffix_drop)

lemma onText_lossless:
  assumes "onText html i raw = (evs, html')"
  shows "covered evs @ html' = html" 
  using assms slice_split [of html i] by (auto simp: onText_def split: if_splits)

lemma onText_shrinking:
  assumes "onText html i raw = (evs, html')"
  shows "shrinking html (remainders evs @ [html'])" 
  using assms by (auto simp: onText_def slice_from_suffix split: if_splits)

lemma onText_nonempty:
  assumes "onText html i raw = (evs, html')"
  shows "\<forall>e \<in> set evs. \<not> is_error e \<and> first_arg e \<noteq> []" 
  using assms by (auto simp: onText_def split: if_splits)

lemma matches_Bol_Seq: "pos st \<noteq> 0 \<Longrightarrow> matches (Seq Bol r) st = []"
  by simp

lemma exec_anchored_index:
  assumes "exec (Seq Bol r) s = Some m"
  shows "index m = 0"
proof (rule ccontr)
  assume "index m \<noteq> 0"
  then have "matches (Seq Bol r) \<lparr>pos = index m, rest = drop (index m) s, caps = Map.empty\<rparr> = []"
    by simp
  moreover from exec_from_SomeD [OF assms [unfolded exec_def]] obtain st sts where
    "matches (Seq Bol r) \<lparr>pos = index m, rest = drop (index m) s, caps = Map.empty\<rparr> = st # sts"
    by blast
  ultimately show False by (simp only: list.distinct)
qed

lemma exec_anchored_split:
  assumes "exec (Seq Bol r) s = Some m"
  shows "whole m @ drop (length (whole m)) s = s"
  using exec_from_whole [OF assms [unfolded exec_def]] exec_anchored_index [OF assms]
  by simp

lemma exec_anchored_nonempty:
  assumes "exec (Seq Bol (Seq (Chr p) r)) s = Some m"
  shows "whole m \<noteq> []"
proof -
  from exec_from_SomeD [OF assms [unfolded exec_def]] obtain st sts where
    st: "matches (Seq Bol (Seq (Chr p) r)) \<lparr>pos = index m, rest = drop (index m) s, caps = Map.empty\<rparr> = st # sts"
    and w: "whole m = take (pos st - index m) (drop (index m) s)" by blast
  let ?st0 = "\<lparr>pos = index m, rest = drop (index m) s, caps = Map.empty\<rparr>"
  have i0: "index m = 0" by (rule exec_anchored_index [OF assms])
  have "st \<in> set (matches (Seq Bol (Seq (Chr p) r)) ?st0)" using st by simp
  then have mem: "st \<in> set (matches (Seq (Chr p) r) ?st0)"
    using i0 by simp
  from matches_Chr_Seq_advances [OF mem] have adv: "index m < pos st" by simp
  from matches_consumes [OF mem] obtain us where
    us: "drop (index m) s = us @ rest st" "pos st = index m + length us"
    by (auto simp: consumes_def)
  from adv us(2) have "us \<noteq> []" by auto
  with us w show ?thesis by (cases us) auto
qed

lemma startTag_shape: "\<exists>r. startTag = Seq Bol (Seq (Chr (\<lambda>x. x = CHR ''<'')) r)"
  by (simp add: startTag_def lit_def)

lemma endTag_shape: "\<exists>r. endTag = Seq Bol (Seq (Chr (\<lambda>x. x = CHR ''<'')) r)"
  by (simp add: endTag_def lit_def)

lemma comment_shape: "\<exists>r. comment = Seq Bol (Seq (Chr (\<lambda>x. x = CHR ''<'')) r)"
  by (simp add: comment_def lit_def)

lemma other_shape: "\<exists>r. other = Seq Bol (Seq (Chr (\<lambda>x. x = CHR ''<'')) r)"
  by (simp add: other_def lit_def)

lemma decoder_match:
  assumes "decoder r" "exec r s = Some m"
  shows "whole m @ drop (length (whole m)) s = s" and "whole m \<noteq> []"
proof -
  from assms(1) obtain p r' where r: "r = Seq Bol (Seq (Chr p) r')"
    unfolding decoder_def using startTag_shape endTag_shape comment_shape other_shape by metis
  from assms(2) show "whole m @ drop (length (whole m)) s = s"
    unfolding r by (rule exec_anchored_split)
  from assms(2) show "whole m \<noteq> []"
    unfolding r by (rule exec_anchored_nonempty)
qed

lemma lossless_trans:
  "lossless a xs b \<Longrightarrow> lossless b ys c \<Longrightarrow> lossless a (xs @ ys) c"
  by (auto simp: lossless_def intro: shrinking_append)

lemma lossless_refl: "lossless a [] a"
  by (simp add: lossless_def)

lemma onText_step:
  assumes "onText html i raw = (evs, html')"
  shows "lossless html evs html'" and "productive evs"
  using onText_lossless [OF assms] onText_shrinking [OF assms] onText_nonempty [OF assms]
  by (simp_all add: lossless_def productive_def)

lemma onTag_step:
  assumes "whole m @ drop (length (whole m)) html = html" "whole m \<noteq> []"
    and "onTag html m handler = (ev, html')"
    and "handler = End \<or> handler = Comment \<or> handler = Other"
  shows "lossless html [ev] html'" and "productive [ev]"
  using assms by (auto simp: onTag_def lossless_def productive_def Let_def suffix_def)

lemma onStartTag_step:
  assumes "whole m @ drop (length (whole m)) html = html" "whole m \<noteq> []"
    and "onStartTag html m li = (ev, html', li')"
  shows "lossless html [ev] html'" and "productive [ev]"
  using assms
  by (auto simp: onStartTag_def lossless_def productive_def Let_def suffix_def split: prod.splits)

lemma whole_lower_name [simp]: "whole (lower_name m) = whole m"
  by (simp add: lower_name_def)

lemma plain_text_step:
  assumes "plain_text html = (evs, html')"
  shows "lossless html evs html'" and "productive evs"
  using assms unfolding plain_text_def by (rule onText_step)+

lemma productive_append: "productive xs \<Longrightarrow> productive ys \<Longrightarrow> productive (xs @ ys)"
  by (auto simp: productive_def)

lemma dispatch_step:
  assumes "dispatch cfg html h = (evs, html', h')"
  shows "lossless html evs html' \<and> productive evs"
proof (cases "take 1 html = ''<''")
  case False
  with assms obtain "plain_text html = (evs, html')"
    by (auto simp: dispatch_def split: prod.splits)
  then show ?thesis using plain_text_step by blast
next
  case lt: True
  show ?thesis
  proof (cases "exec startTag html")
    case (Some m)
    have d: "decoder startTag" by (simp add: decoder_def)
    note sp = decoder_match [OF d Some]
    obtain ev html1 li1 where st: "onStartTag html m (attr_lastIndex h) = (ev, html1, li1)"
      by (cases "onStartTag html m (attr_lastIndex h)") auto
    obtain raw ri where t:
      "test (rawTags cfg) (rawTags_global cfg) (rawTags_sticky cfg) (capture m 1)
         (rawTags_lastIndex h) = (raw, ri)"
      by (cases "test (rawTags cfg) (rawTags_global cfg) (rawTags_sticky cfg) (capture m 1)
         (rawTags_lastIndex h)") auto
    note s1 = onStartTag_step [OF sp st]
    show ?thesis
    proof (cases raw)
      case True
      obtain evs2 html2 where tx:
        "onText html1 (rawEnd html1 (matchEnd cfg (capture m 1)) 0) True = (evs2, html2)"
        by (cases "onText html1 (rawEnd html1 (matchEnd cfg (capture m 1)) 0) True") auto
      from assms lt Some st t True tx have "evs = [ev] @ evs2" "html' = html2"
        by (auto simp: dispatch_def Let_def)
      with lossless_trans [OF s1(1) onText_step(1) [OF tx]]
        productive_append [OF s1(2) onText_step(2) [OF tx]] show ?thesis
        by simp
    next
      case False
      from assms lt Some st t False have "evs = [ev]" "html' = html1"
        by (auto simp: dispatch_def Let_def)
      with s1 show ?thesis by simp
    qed
  next
    case noStart: None
    show ?thesis
    proof (cases "exec endTag html")
      case (Some m)
      have d: "decoder endTag" by (simp add: decoder_def)
      note sp = decoder_match [OF d Some]
      obtain ev html1 where t: "onTag html (lower_name m) End = (ev, html1)"
        by (cases "onTag html (lower_name m) End") auto
      from assms lt noStart Some t have "evs = [ev]" "html' = html1"
        by (auto simp: dispatch_def Let_def)
      with onTag_step [of "lower_name m" html End ev html1] sp t show ?thesis by simp
    next
      case noEnd: None
      show ?thesis
      proof (cases "exec comment html")
        case (Some m)
        have d: "decoder comment" by (simp add: decoder_def)
        note sp = decoder_match [OF d Some]
        obtain ev html1 where t: "onTag html m Comment = (ev, html1)"
          by (cases "onTag html m Comment") auto
        from assms lt noStart noEnd Some t have "evs = [ev]" "html' = html1"
          by (auto simp: dispatch_def Let_def)
        with onTag_step [of m html Comment ev html1] sp t show ?thesis by simp
      next
        case noComment: None
        show ?thesis
        proof (cases "exec other html")
          case (Some m)
          have d: "decoder other" by (simp add: decoder_def)
          note sp = decoder_match [OF d Some]
          obtain ev html1 where t: "onTag html m Other = (ev, html1)"
            by (cases "onTag html m Other") auto
          from assms lt noStart noEnd noComment Some t have "evs = [ev]" "html' = html1"
            by (auto simp: dispatch_def Let_def)
          with onTag_step [of m html Other ev html1] sp t show ?thesis by simp
        next
          case None
          with assms lt noStart noEnd noComment obtain "plain_text html = (evs, html')"
            by (auto simp: dispatch_def split: prod.splits)
          then show ?thesis using plain_text_step by blast
        qed
      qed
    qed
  qed
qed

section \<open>Invariants of the cursor loop\<close>

lemma shrinking_butlast: "shrinking s (xs @ [h]) \<Longrightarrow> shrinking s xs"
  by (induction xs arbitrary: s) auto

lemma iteration_lossless:
  assumes "iteration cfg st = Inr st'" "lossless s (st_trace st) (st_html st)"
  shows "lossless s (st_trace st') (st_html st')"
proof -
  obtain evs html' h' where d: "dispatch cfg (st_html st) (st_hidden st) = (evs, html', h')"
    by (cases "dispatch cfg (st_html st) (st_hidden st)") auto
  define tr where "tr = (if st_last st = Some (st_html st)
     then st_trace st @ [Error (parse_error (st_html st))] else st_trace st)"
  from assms(1) d have st': "st_trace st' = tr @ evs" "st_html st' = html'"
    by (auto simp: iteration_def tr_def Let_def split: if_splits)
  from assms(2) have "lossless s tr (st_html st)"
    by (simp add: tr_def lossless_def)
  with dispatch_step [OF d] show ?thesis
    unfolding st' by (blast intro: lossless_trans)
qed

lemma loop_lossless:
  "lossless s (st_trace st) (st_html st) \<Longrightarrow>
   lossless s (st_trace (final (loop n cfg st))) (st_html (final (loop n cfg st)))"
proof (induction n arbitrary: st)
  case 0
  then show ?case by (cases "st_html st = []") (simp_all add: final_def)
next
  case (Suc n)
  show ?case
  proof (cases "st_html st = []")
    case True
    with Suc.prems show ?thesis by (simp add: final_def)
  next
    case False
    show ?thesis
    proof (cases "iteration cfg st")
      case (Inl err)
      with False Suc.prems show ?thesis by (simp add: final_def)
    next
      case (Inr st')
      from Suc.IH [OF iteration_lossless [OF Inr Suc.prems]] False Inr
      show ?thesis by simp
    qed
  qed
qed

lemma loop_Returned_empty: "loop n cfg st = Returned st' \<Longrightarrow> st_html st' = []"
  by (induction n arbitrary: st) (auto split: if_splits sum.splits)

lemma parse_lossless_final:
  "lossless html (st_trace (final (parse n cfg h html))) (st_html (final (parse n cfg h html)))"
proof (cases "html = []")
  case True
  then show ?thesis by (simp add: parse_def final_def lossless_refl)
next
  case False
  have "lossless html (st_trace \<lparr>st_html = html, st_last = None, st_trace = [], st_hidden = h\<rparr>)
     (st_html \<lparr>st_html = html, st_last = None, st_trace = [], st_hidden = h\<rparr>)"
    by (simp add: lossless_refl)
  from loop_lossless [OF this] False show ?thesis by (simp add: parse_def)
qed

lemma parse_link_example:
  "parse 5 default_config fresh ''<a href=\"x\">hi</a>'' =
    Returned \<lparr>st_html = [], st_last = Some ''</a>'',
      st_trace = [Start ''<a href=\"x\">'' ''a''
                    \<lparr>props = [(''href'', Str ''x'')], has_proto = True\<rparr> ''hi</a>'',
                  Text ''hi'' False ''</a>'', End ''</a>'' ''a'' []],
      st_hidden = fresh\<rparr>"
  by code_simp

text \<open>
  C1. Whenever \<open>parse\<close> returns (the loop ended, no stalled-progress error was raised),
  the first arguments of the start, end, text, comment and other calls, concatenated in
  the order of the calls, are the input string.
\<close>

theorem parse_lossless:
  assumes "parse n cfg h html = Returned st"
  shows "covered (st_trace st) = html"
proof -
  from assms have e: "st_html st = []"
    by (auto simp: parse_def dest: loop_Returned_empty split: if_splits)
  from parse_lossless_final [of html n cfg h] assms e show ?thesis
    by (simp add: final_def lossless_def)
qed

theorem parse_lossless_witness:
  "parse 5 default_config fresh ''<a href=\"x\">hi</a>'' =
    Returned \<lparr>st_html = [], st_last = Some ''</a>'',
      st_trace = [Start ''<a href=\"x\">'' ''a''
                    \<lparr>props = [(''href'', Str ''x'')], has_proto = True\<rparr> ''hi</a>'',
                  Text ''hi'' False ''</a>'', End ''</a>'' ''a'' []],
      st_hidden = fresh\<rparr>
   \<and> covered [Start ''<a href=\"x\">'' ''a''
                \<lparr>props = [(''href'', Str ''x'')], has_proto = True\<rparr> ''hi</a>'',
              Text ''hi'' False ''</a>'', End ''</a>'' ''a'' []] = ''<a href=\"x\">hi</a>''"
  using parse_lossless [OF parse_link_example] parse_link_example by simp

text \<open>
  C9. In every run, finished or not, the last arguments of the start, end, text, comment
  and other calls shrink: the first is a suffix of the input, each later one a suffix of
  the one before.
\<close>

theorem remainders_shrink:
  "shrinking html (remainders (calls (parse n cfg h html)))"
  using parse_lossless_final [of html n cfg h]
  by (auto simp: lossless_def calls_def dest: shrinking_butlast)

text \<open>
  C10. On the empty string \<open>parse\<close> returns at once and calls nothing, whatever the
  options.
\<close>

theorem parse_empty:
  "parse n cfg h [] =
     Returned \<lparr>st_html = [], st_last = None, st_trace = [], st_hidden = h\<rparr>
   \<and> calls (parse n cfg h []) = []"
  by (simp add: parse_def calls_def final_def)

text \<open>
  C7. \<open>onText\<close> with a found offset \<open>k\<close> emits the span from 0 to \<open>k\<close> as one text call
  and moves the cursor to \<open>k\<close>; with the offset -1 (not found) it emits the whole
  remaining input and empties the cursor; and it makes no call for an empty text.
\<close>

theorem onText_text_run:
  "onText html (int k) isRawText =
     (if take k html = [] then [] else [Text (take k html) isRawText (drop k html)], drop k html)
   \<and> onText html (- 1) isRawText = (if html = [] then [] else [Text html isRawText []], [])"
  by (simp add: onText_def slice_to_def slice_from_def)

section \<open>Stalled progress\<close>

lemma productive_covered_empty: "productive evs \<Longrightarrow> covered evs = [] \<Longrightarrow> evs = []"
  by (cases evs) (auto simp: productive_def)

lemma dispatch_stalled:
  assumes "dispatch cfg html h = (evs, html, h')"
  shows "evs = []"
proof -
  from dispatch_step [OF assms] have "covered evs @ html = html" "productive evs"
    by (simp_all add: lossless_def)
  then show ?thesis by (simp add: productive_covered_empty)
qed

lemma dispatch_without_start:
  assumes "take 1 html = ''<'' \<longrightarrow> exec startTag html = None"
  shows "dispatch cfg html h = (fst (dispatch cfg html fresh), fst (snd (dispatch cfg html fresh)), h)"
  using assms by (simp add: dispatch_def Let_def split: option.splits prod.splits)

lemma dispatch_start_event:
  assumes "exec startTag html = Some m" "take 1 html = ''<''"
  shows "fst (dispatch cfg html h) \<noteq> []"
  using assms by (simp add: dispatch_def Let_def split: prod.splits)

lemma dispatch_stalled_anywhere:
  assumes "dispatch cfg html h = (evs, html, h')"
  shows "dispatch cfg html h2 = ([], html, h2)"
proof -
  from dispatch_stalled [OF assms] have e: "evs = []" .
  have n: "take 1 html = ''<'' \<longrightarrow> exec startTag html = None"
  proof
    assume lt: "take 1 html = ''<''"
    show "exec startTag html = None"
    proof (cases "exec startTag html")
      case (Some m)
      from dispatch_start_event [OF Some lt, of cfg h] assms e show ?thesis by simp
    qed simp
  qed
  from dispatch_without_start [OF n, of cfg h] assms
  have "fst (dispatch cfg html fresh) = evs" "fst (snd (dispatch cfg html fresh)) = html" by simp_all
  with dispatch_without_start [OF n, of cfg h2] e show ?thesis by simp
qed

lemma dispatch_shorter:
  assumes "dispatch cfg html h = (evs, html', h')"
  shows "html' = html \<or> length html' < length html"
proof -
  from dispatch_step [OF assms] have c: "covered evs @ html' = html"
    by (simp add: lossless_def)
  show ?thesis
  proof (cases "covered evs")
    case Nil
    with c show ?thesis by simp
  next
    case (Cons a as)
    with c have "length html = length (a # as) + length html'"
      by (metis length_append)
    then show ?thesis by simp
  qed
qed

text \<open>
  C5. When an iteration leaves the cursor where it was, the next one finds
  \<^verbatim>\<open>html === last\<close>. With an error handler, the handler is called with the error
  \<^verbatim>\<open>'HTML parse error: ' + html\<close> and the loop goes on (from the same cursor); without
  one, the error is thrown and nothing more is called.
\<close>

theorem stalled_progress:
  assumes "iteration cfg st0 = Inr st1" and "st_html st1 = st_html st0" and "st_html st0 \<noteq> []"
  shows "if errorHandler cfg
         then \<exists>st2. iteration cfg st1 = Inr st2
                \<and> st_trace st2 = st_trace st1 @ [Error (parse_error (st_html st1))]
                \<and> st_html st2 = st_html st1
                \<and> loop (Suc n) cfg st1 = loop n cfg st2
         else loop (Suc n) cfg st1 = Threw (parse_error (st_html st1)) st1"
proof -
  obtain evs html' h' where d: "dispatch cfg (st_html st0) (st_hidden st0) = (evs, html', h')"
    by (cases "dispatch cfg (st_html st0) (st_hidden st0)") auto
  from assms(1) d have st1: "st_html st1 = html'" "st_last st1 = Some (st_html st0)"
    by (auto simp: iteration_def Let_def split: if_splits)
  from st1 assms(2) have h: "html' = st_html st0" by simp
  from d h have d2: "dispatch cfg (st_html st0) (st_hidden st1) = ([], st_html st0, st_hidden st1)"
    by (simp add: dispatch_stalled_anywhere)
  show ?thesis
  proof (cases "errorHandler cfg")
    case True
    with st1 assms(2,3) d2 show ?thesis
      by (simp add: iteration_def)
  next
    case False
    with st1 assms(2,3) show ?thesis
      by (simp add: iteration_def)
  qed
qed

lemma stall_example:
  "iteration default_config \<lparr>st_html = ''<b'', st_last = None, st_trace = [], st_hidden = fresh\<rparr>
     = Inr \<lparr>st_html = ''<b'', st_last = Some ''<b'', st_trace = [], st_hidden = fresh\<rparr>"
  by code_simp

lemma stall_example_handler:
  "iteration (default_config\<lparr>errorHandler := True\<rparr>)
       \<lparr>st_html = ''<b'', st_last = None, st_trace = [], st_hidden = fresh\<rparr>
     = Inr \<lparr>st_html = ''<b'', st_last = Some ''<b'', st_trace = [], st_hidden = fresh\<rparr>"
  by code_simp

theorem stalled_progress_witness:
  "loop (Suc 0) default_config \<lparr>st_html = ''<b'', st_last = Some ''<b'', st_trace = [], st_hidden = fresh\<rparr>
     = Threw ''HTML parse error: <b''
         \<lparr>st_html = ''<b'', st_last = Some ''<b'', st_trace = [], st_hidden = fresh\<rparr>
   \<and> (\<exists>st2. iteration (default_config\<lparr>errorHandler := True\<rparr>)
                \<lparr>st_html = ''<b'', st_last = Some ''<b'', st_trace = [], st_hidden = fresh\<rparr> = Inr st2
          \<and> st_trace st2 = [Error ''HTML parse error: <b''] \<and> st_html st2 = ''<b''
          \<and> loop (Suc 0) (default_config\<lparr>errorHandler := True\<rparr>)
                \<lparr>st_html = ''<b'', st_last = Some ''<b'', st_trace = [], st_hidden = fresh\<rparr>
              = loop 0 (default_config\<lparr>errorHandler := True\<rparr>) st2)"
proof
  from stalled_progress [OF stall_example, of 0]
  show "loop (Suc 0) default_config
      \<lparr>st_html = ''<b'', st_last = Some ''<b'', st_trace = [], st_hidden = fresh\<rparr>
     = Threw ''HTML parse error: <b''
         \<lparr>st_html = ''<b'', st_last = Some ''<b'', st_trace = [], st_hidden = fresh\<rparr>"
    by (simp add: default_config_def parse_error_def del: loop.simps)
next
  from stalled_progress [OF stall_example_handler, of 0]
  show "\<exists>st2. iteration (default_config\<lparr>errorHandler := True\<rparr>)
                \<lparr>st_html = ''<b'', st_last = Some ''<b'', st_trace = [], st_hidden = fresh\<rparr> = Inr st2
          \<and> st_trace st2 = [Error ''HTML parse error: <b''] \<and> st_html st2 = ''<b''
          \<and> loop (Suc 0) (default_config\<lparr>errorHandler := True\<rparr>)
                \<lparr>st_html = ''<b'', st_last = Some ''<b'', st_trace = [], st_hidden = fresh\<rparr>
              = loop 0 (default_config\<lparr>errorHandler := True\<rparr>) st2"
    by (simp add: default_config_def parse_error_def del: loop.simps)
qed

subsection \<open>The loop under an error handler\<close>

lemma dispatch_lt: "dispatch cfg ''<'' h = ([], ''<'', h)"
proof -
  have "exec startTag ''<'' = None" "exec endTag ''<'' = None" "exec comment ''<'' = None"
    "exec other ''<'' = None" by code_simp+
  then show ?thesis
    by (simp add: dispatch_def plain_text_def onText_def slice_to_def slice_from_def)
qed

lemma loop_stalled:
  "errorHandler cfg \<Longrightarrow> st_html st = ''<'' \<Longrightarrow> st_last st = Some ''<'' \<Longrightarrow>
   loop n cfg st = Running (st\<lparr>st_trace := st_trace st @ replicate n (Error (parse_error ''<''))\<rparr>)"
proof (induction n arbitrary: st)
  case 0
  then show ?case by simp
next
  case (Suc n)
  let ?st' = "st\<lparr>st_trace := st_trace st @ [Error (parse_error ''<'')]\<rparr>"
  from Suc.prems have it: "iteration cfg st = Inr ?st'"
    by (simp add: iteration_def dispatch_lt)
  from Suc.prems have "loop n cfg ?st' =
     Running (?st'\<lparr>st_trace := st_trace ?st' @ replicate n (Error (parse_error ''<''))\<rparr>)"
    by (intro Suc.IH) simp_all
  with it Suc.prems show ?case by (simp add: replicate_app_Cons_same)
qed

text \<open>
  C6. On the input \<^verbatim>\<open><\<close> with an error handler set, \<open>parse\<close> is still in its loop
  after any number of iterations, having called the handler in each of them but the
  first: the call does not terminate.
\<close>

theorem error_handler_never_returns:
  "\<exists>st. parse n (cfg\<lparr>errorHandler := True\<rparr>) h ''<'' = Running st
        \<and> st_trace st = replicate (n - 1) (Error ''HTML parse error: <'')"
proof (cases n)
  case 0
  then show ?thesis by (simp add: parse_def)
next
  case (Suc k)
  let ?cfg = "cfg\<lparr>errorHandler := True\<rparr>"
  let ?st1 = "\<lparr>st_html = ''<'', st_last = Some ''<'', st_trace = [], st_hidden = h\<rparr>"
  have "iteration ?cfg \<lparr>st_html = ''<'', st_last = None, st_trace = [], st_hidden = h\<rparr>
      = Inr ?st1"
    by (simp add: iteration_def dispatch_lt)
  moreover have "loop k ?cfg ?st1 =
      Running (?st1\<lparr>st_trace := st_trace ?st1 @ replicate k (Error (parse_error ''<''))\<rparr>)"
    by (rule loop_stalled) simp_all
  ultimately show ?thesis using Suc by (simp add: parse_def parse_error_def)
qed

text \<open>
  Without an error handler the loop does end: an iteration shortens the cursor, or
  leaves it in place for the next iteration to throw.
\<close>

lemma loop_without_handler_ends:
  "\<not> errorHandler cfg \<Longrightarrow> potential st \<le> n \<Longrightarrow> (\<forall>st'. loop n cfg st \<noteq> Running st')"
proof (induction n arbitrary: st)
  case 0
  then show ?case by (simp add: potential_def split: if_splits)
next
  case (Suc n)
  show ?case
  proof (cases "st_html st = []")
    case True
    then show ?thesis by simp
  next
    case ne: False
    show ?thesis
    proof (cases "iteration cfg st")
      case (Inl err)
      with ne show ?thesis by simp
    next
      case (Inr st')
      obtain evs html' h' where d: "dispatch cfg (st_html st) (st_hidden st) = (evs, html', h')"
        by (cases "dispatch cfg (st_html st) (st_hidden st)") auto
      from Inr d Suc.prems(1) have st': "st_html st' = html'" "st_last st' = Some (st_html st)"
        and nl: "st_last st \<noteq> Some (st_html st)"
        by (auto simp: iteration_def Let_def split: if_splits)
      from dispatch_shorter [OF d] st' nl have "potential st' < potential st"
        by (auto simp: potential_def)
      with Suc.prems(2) have "potential st' \<le> n" by simp
      from Suc.IH [OF Suc.prems(1) this] Inr ne show ?thesis by simp
    qed
  qed
qed

lemma parse_without_handler_ends:
  "\<not> errorHandler cfg \<Longrightarrow> 2 * length html + 1 \<le> n \<Longrightarrow> parse n cfg h html \<noteq> Running st"
  using loop_without_handler_ends [of cfg
      "\<lparr>st_html = html, st_last = None, st_trace = [], st_hidden = h\<rparr>" n]
  by (simp add: parse_def potential_def)

section \<open>The order of the decoders\<close>

lemma matches_Chr_Seq_nonempty:
  "matches (Seq (Chr p) r) st \<noteq> [] \<Longrightarrow> \<exists>c cs. rest st = c # cs \<and> p c"
  by (cases "rest st") (auto split: if_splits)

lemma matches_Seq_nonempty: "matches (Seq a b) st \<noteq> [] \<Longrightarrow> matches a st \<noteq> []"
  by auto

lemma matches_Group_nonempty: "matches (Group n a) st \<noteq> [] \<Longrightarrow> matches a st \<noteq> []"
  by auto

lemma exec_anchored_matches:
  assumes "exec (Seq Bol r) s = Some m"
  shows "matches r \<lparr>pos = 0, rest = s, caps = Map.empty\<rparr> \<noteq> []"
proof -
  from exec_from_SomeD [OF assms [unfolded exec_def]] exec_anchored_index [OF assms]
  obtain st sts where "matches (Seq Bol r) \<lparr>pos = 0, rest = s, caps = Map.empty\<rparr> = st # sts"
    by auto
  then show ?thesis by auto
qed

lemma second_char:
  assumes "matches (Seq (Chr p) r) \<lparr>pos = 0, rest = s, caps = Map.empty\<rparr> \<noteq> []"
    and "\<And>st. matches r st \<noteq> [] \<Longrightarrow> \<exists>c cs. rest st = c # cs \<and> q c"
  shows "\<exists>a b t. s = a # b # t \<and> p a \<and> q b"
proof (cases s)
  case Nil
  with assms(1) show ?thesis by simp
next
  case (Cons a t)
  with assms(1) have "p a" and "matches r \<lparr>pos = Suc 0, rest = t, caps = Map.empty\<rparr> \<noteq> []"
    by (auto split: if_splits)
  with assms(2) Cons show ?thesis by fastforce
qed

lemma startTag_front:
  assumes "exec startTag html = Some m"
  shows "\<exists>c t. html = CHR ''<'' # c # t \<and> c \<noteq> CHR ''/'' \<and> c \<noteq> CHR ''!''"
proof -
  let ?nm = "\<lambda>c. \<not> ws c \<and> none_of ''=/!>'' c"
  obtain r where r: "startTag = Seq Bol (Seq (Chr (\<lambda>x. x = CHR ''<''))
      (Seq (Group 1 (Seq (Chr ?nm) (Star (Chr ?nm)))) r))"
    by (simp add: startTag_def lit_def Plus_def)
  from exec_anchored_matches [OF assms [unfolded r]]
  have "\<exists>a b t. html = a # b # t \<and> a = CHR ''<'' \<and> ?nm b"
    by (rule second_char)
       (blast dest: matches_Seq_nonempty matches_Group_nonempty matches_Chr_Seq_nonempty)
  then show ?thesis by (auto simp: none_of_def)
qed

lemma endTag_front:
  assumes "exec endTag html = Some m"
  shows "\<exists>t. html = CHR ''<'' # CHR ''/'' # t"
proof -
  obtain r where r: "endTag = Seq Bol (Seq (Chr (\<lambda>x. x = CHR ''<''))
      (Seq (Chr (\<lambda>x. x = CHR ''/'')) r))"
    by (simp add: endTag_def lit_def)
  from exec_anchored_matches [OF assms [unfolded r]]
  have "\<exists>a b t. html = a # b # t \<and> a = CHR ''<'' \<and> b = CHR ''/''"
    by (rule second_char) (blast dest: matches_Chr_Seq_nonempty)
  then show ?thesis by auto
qed

lemma comment_front:
  assumes "exec comment html = Some m"
  shows "\<exists>t. html = CHR ''<'' # CHR ''!'' # t"
proof -
  obtain r where r: "comment = Seq Bol (Seq (Chr (\<lambda>x. x = CHR ''<''))
      (Seq (Chr (\<lambda>x. x = CHR ''!'')) r))"
    by (simp add: comment_def lit_def)
  from exec_anchored_matches [OF assms [unfolded r]]
  have "\<exists>a b t. html = a # b # t \<and> a = CHR ''<'' \<and> b = CHR ''!''"
    by (rule second_char) (blast dest: matches_Chr_Seq_nonempty)
  then show ?thesis by auto
qed

lemma endTag_excludes: "exec endTag html = Some m \<Longrightarrow> exec startTag html = None"
  using startTag_front [of html] endTag_front [of html m] by (cases "exec startTag html") auto

lemma comment_excludes:
  "exec comment html = Some m \<Longrightarrow> exec startTag html = None \<and> exec endTag html = None"
  using startTag_front [of html] endTag_front [of html] comment_front [of html m]
  by (cases "exec startTag html"; cases "exec endTag html") auto

lemma capture_lower_name [simp]:
  "capture (lower_name m) (Suc 0) = toLowerCase (capture m (Suc 0))"
  by (simp add: lower_name_def capture_def)

text \<open>
  C2. At a cursor that begins with \<^verbatim>\<open><\<close> the decoders are tried in the order start
  tag, end tag, comment, other, and the first that matches gets the one decoder call of
  the iteration (after a start tag a single raw text call may follow). An end tag or a
  comment at the front goes to the end or the comment handler, never to the other
  handler, although the pattern \<open>other\<close> matches it too.
\<close>

theorem dispatch_priority:
  assumes "take 1 html = ''<''"
  shows "(\<forall>m. exec startTag html = Some m \<longrightarrow>
            (\<exists>attrs evs. fst (dispatch cfg html h) =
                 Start (whole m) (toLowerCase (capture m 1)) attrs (drop (length (whole m)) html) # evs
               \<and> length evs \<le> 1 \<and> (\<forall>e \<in> set evs. is_raw_text e)))
       \<and> (\<forall>m. exec endTag html = Some m \<longrightarrow>
            fst (dispatch cfg html h) =
              [End (whole m) (toLowerCase (capture m 1)) (drop (length (whole m)) html)])
       \<and> (\<forall>m. exec comment html = Some m \<longrightarrow>
            fst (dispatch cfg html h) =
              [Comment (whole m) (capture m 1) (drop (length (whole m)) html)])
       \<and> (\<forall>m. exec startTag html = None \<and> exec endTag html = None \<and> exec comment html = None
              \<and> exec other html = Some m \<longrightarrow>
            fst (dispatch cfg html h) =
              [Other (whole m) (capture m 1) (drop (length (whole m)) html)])"
proof (intro conjI allI impI)
  fix m assume m: "exec startTag html = Some m"
  show "\<exists>attrs evs. fst (dispatch cfg html h) =
                 Start (whole m) (toLowerCase (capture m 1)) attrs (drop (length (whole m)) html) # evs
               \<and> length evs \<le> 1 \<and> (\<forall>e \<in> set evs. is_raw_text e)"
    using assms m
    by (auto simp: dispatch_def onStartTag_def onText_def Let_def split: prod.splits)
next
  fix m assume m: "exec endTag html = Some m"
  from endTag_excludes [OF m] assms m
  show "fst (dispatch cfg html h) =
      [End (whole m) (toLowerCase (capture m 1)) (drop (length (whole m)) html)]"
    by (simp add: dispatch_def onTag_def Let_def)
next
  fix m assume m: "exec comment html = Some m"
  from comment_excludes [OF m] assms m
  show "fst (dispatch cfg html h) =
      [Comment (whole m) (capture m 1) (drop (length (whole m)) html)]"
    by (simp add: dispatch_def onTag_def Let_def)
next
  fix m assume "exec startTag html = None \<and> exec endTag html = None \<and> exec comment html = None
              \<and> exec other html = Some m"
  with assms show "fst (dispatch cfg html h) =
      [Other (whole m) (capture m 1) (drop (length (whole m)) html)]"
    by (simp add: dispatch_def onTag_def Let_def)
qed

lemma decoder_examples:
  "exec startTag ''<br/>'' \<noteq> None"
  "exec endTag ''</a>'' \<noteq> None"
  "exec comment ''<!---->'' \<noteq> None"
  "exec startTag ''<!x>'' = None \<and> exec endTag ''<!x>'' = None \<and> exec comment ''<!x>'' = None
     \<and> exec other ''<!x>'' \<noteq> None"
  by code_simp+

theorem dispatch_priority_witness:
  "(\<exists>m attrs evs. exec startTag ''<br/>'' = Some m \<and> fst (dispatch default_config ''<br/>'' fresh) =
        Start (whole m) (toLowerCase (capture m 1)) attrs (drop (length (whole m)) ''<br/>'') # evs)
   \<and> (\<exists>m. exec endTag ''</a>'' = Some m \<and> fst (dispatch default_config ''</a>'' fresh) =
        [End (whole m) (toLowerCase (capture m 1)) (drop (length (whole m)) ''</a>'')])
   \<and> (\<exists>m. exec comment ''<!---->'' = Some m \<and> fst (dispatch default_config ''<!---->'' fresh) =
        [Comment (whole m) (capture m 1) (drop (length (whole m)) ''<!---->'')])
   \<and> (\<exists>m. exec other ''<!x>'' = Some m \<and> fst (dispatch default_config ''<!x>'' fresh) =
        [Other (whole m) (capture m 1) (drop (length (whole m)) ''<!x>'')])"
proof -
  have t: "take 1 ''<br/>'' = ''<''" "take 1 ''</a>'' = ''<''" "take 1 ''<!---->'' = ''<''"
    "take 1 ''<!x>'' = ''<''" by simp_all
  from decoder_examples obtain m1 m2 m3 m4 where
    "exec startTag ''<br/>'' = Some m1" "exec endTag ''</a>'' = Some m2"
    "exec comment ''<!---->'' = Some m3" "exec other ''<!x>'' = Some m4"
    by auto
  with decoder_examples(4) dispatch_priority [OF t(1), of default_config fresh]
    dispatch_priority [OF t(2), of default_config fresh]
    dispatch_priority [OF t(3), of default_config fresh]
    dispatch_priority [OF t(4), of default_config fresh]
  show ?thesis by (simp del: One_nat_def) blast
qed

section \<open>Runs and the state of the pattern objects\<close>

lemma forget_fields:
  "forget a = forget b \<longleftrightarrow>
     st_html a = st_html b \<and> st_last a = st_last b \<and> st_trace a = st_trace b"
  by (cases a; cases b) (auto simp: forget_def)

lemma dispatch_hidden:
  assumes "stateless_rawTags cfg"
  shows "fst (dispatch cfg html i) = fst (dispatch cfg html j)
       \<and> fst (snd (dispatch cfg html i)) = fst (snd (dispatch cfg html j))"
  using assms
  by (simp add: dispatch_def onStartTag_def replace_attr_def test_def stateless_rawTags_def Let_def
      split: option.splits prod.splits)

lemma iteration_forget:
  assumes "stateless_rawTags cfg" "forget a = forget b"
  shows "(\<exists>err. iteration cfg a = Inl err \<and> iteration cfg b = Inl err)
       \<or> (\<exists>a' b'. iteration cfg a = Inr a' \<and> iteration cfg b = Inr b' \<and> forget a' = forget b')"
proof -
  from assms(2) have eq: "st_html a = st_html b" "st_last a = st_last b" "st_trace a = st_trace b"
    by (simp_all add: forget_fields)
  obtain e1 h1 l1 where d1: "dispatch cfg (st_html b) (st_hidden a) = (e1, h1, l1)"
    by (cases "dispatch cfg (st_html b) (st_hidden a)") auto
  obtain e2 h2 l2 where d2: "dispatch cfg (st_html b) (st_hidden b) = (e2, h2, l2)"
    by (cases "dispatch cfg (st_html b) (st_hidden b)") auto
  from dispatch_hidden [OF assms(1), of "st_html b" "st_hidden a" "st_hidden b"] d1 d2
  have "e1 = e2" "h1 = h2" by simp_all
  with d1 d2 eq show ?thesis
    by (simp add: iteration_def forget_fields)
qed

lemma loop_forget:
  "stateless_rawTags cfg \<Longrightarrow> forget a = forget b \<Longrightarrow>
   report (loop n cfg a) = report (loop n cfg b)"
proof (induction n arbitrary: a b)
  case 0
  then show ?case by (simp add: report_def forget_fields)
next
  case (Suc n)
  from Suc.prems have h: "st_html a = st_html b" by (simp add: forget_fields)
  from iteration_forget [OF Suc.prems] show ?case
  proof (elim disjE exE conjE)
    fix err assume "iteration cfg a = Inl err" "iteration cfg b = Inl err"
    with h Suc.prems show ?thesis by (simp add: report_def)
  next
    fix a' b' assume "iteration cfg a = Inr a'" "iteration cfg b = Inr b'" "forget a' = forget b'"
    with h Suc.prems Suc.IH [of a' b'] show ?thesis by (simp add: report_def)
  qed
qed

lemma calls_report: "calls (report out) = calls out"
  by (cases out) (simp_all add: calls_def final_def report_def forget_def)

lemma dispatch_fresh:
  "stateless_rawTags cfg \<Longrightarrow> snd (snd (dispatch cfg html fresh)) = fresh"
  by (simp add: dispatch_def onStartTag_def replace_attr_def test_def fresh_def
      stateless_rawTags_def Let_def
      split: option.splits prod.splits)

lemma iteration_fresh:
  "stateless_rawTags cfg \<Longrightarrow> iteration cfg st = Inr st' \<Longrightarrow> st_hidden st = fresh \<Longrightarrow>
   st_hidden st' = fresh"
  using dispatch_fresh [of cfg "st_html st"]
  by (auto simp: iteration_def Let_def split: if_splits prod.splits)

lemma loop_fresh:
  "stateless_rawTags cfg \<Longrightarrow> st_hidden st = fresh \<Longrightarrow> st_hidden (final (loop n cfg st)) = fresh"
proof (induction n arbitrary: st)
  case 0
  then show ?case by (simp add: final_def)
next
  case (Suc n)
  show ?case
  proof (cases "iteration cfg st")
    case (Inl err)
    with Suc.prems show ?thesis by (simp add: final_def)
  next
    case (Inr st')
    from Suc.IH [OF Suc.prems(1) iteration_fresh [OF Suc.prems(1) Inr Suc.prems(2)]] Inr Suc.prems
    show ?thesis by (simp add: final_def)
  qed
qed

text \<open>
  C8, for options whose \<^verbatim>\<open>rawTags\<close> pattern has neither the \<^verbatim>\<open>g\<close> nor the \<^verbatim>\<open>y\<close> flag
  (the default has none).
  A run does not depend on the state in which it finds the pattern objects: from any two
  states, \<open>parse\<close> on the same input and options makes the same calls with the same
  arguments and ends the same way. So a second call, made in the state the first one
  left, repeats the calls of the first; and a call that finds the patterns as they were
  created leaves them so.
\<close>

theorem parse_deterministic:
  assumes "\<not> rawTags_global cfg" and "\<not> rawTags_sticky cfg"
  shows "report (parse n cfg h1 html) = report (parse n cfg h2 html)
       \<and> calls (parse n cfg (st_hidden (final (parse k cfg h1 html))) html)
           = calls (parse n cfg h1 html)
       \<and> st_hidden (final (parse n cfg fresh html)) = fresh"
proof -
  from assms have s: "stateless_rawTags cfg" by (simp add: stateless_rawTags_def)
  have r: "report (parse n cfg i html) = report (parse n cfg j html)" for i j
    using s by (simp add: parse_def loop_forget forget_fields) (simp add: report_def forget_def)
  from r [of "st_hidden (final (parse k cfg h1 html))" h1]
  have "calls (report (parse n cfg (st_hidden (final (parse k cfg h1 html))) html))
      = calls (report (parse n cfg h1 html))" by simp
  moreover have "st_hidden (final (parse n cfg fresh html)) = fresh"
    using s by (simp add: parse_def loop_fresh) (simp add: final_def)
  ultimately show ?thesis using r by (simp add: calls_report)
qed

theorem parse_deterministic_witness:
  "\<not> rawTags_global default_config \<and> \<not> rawTags_sticky default_config
   \<and> report (parse 3 default_config fresh ''<script>x'')
       = report (parse 3 default_config \<lparr>attr_lastIndex = 4, rawTags_lastIndex = 6\<rparr> ''<script>x'')
   \<and> calls (parse 3 default_config
               (st_hidden (final (parse 3 default_config fresh ''<script>x''))) ''<script>x'')
       = calls (parse 3 default_config fresh ''<script>x'')
   \<and> st_hidden (final (parse 3 default_config fresh ''<script>x'')) = fresh"
proof -
  have g: "\<not> rawTags_global default_config" and y: "\<not> rawTags_sticky default_config"
    by (simp_all add: default_config_def)
  from parse_deterministic [OF g y, of 3 fresh "''<script>x''"
      "\<lparr>attr_lastIndex = 4, rawTags_lastIndex = 6\<rparr>" 3] g y
  show ?thesis by simp
qed

text \<open>
  C8 as stated, for every configuration, fails under the \<^verbatim>\<open>g\<close> flag on
  \<^verbatim>\<open>options.rawTags\<close>: \<^verbatim>\<open>rawTags.test\<close> leaves
  \<^verbatim>\<open>lastIndex\<close> at 6 after the first call on \<^verbatim>\<open><script>x\<close>, and in the second call
  with the same options the search from there fails, so the same text is reported as
  raw by the first call and as plain by the second.
\<close>

theorem global_rawTags_counterexample:
  "calls (parse 3 (default_config\<lparr>rawTags_global := True\<rparr>) fresh ''<script>x'')
     = [Start ''<script>'' ''script'' new_object ''x'', Text ''x'' True []]
   \<and> st_hidden (final (parse 3 (default_config\<lparr>rawTags_global := True\<rparr>) fresh ''<script>x''))
     = \<lparr>attr_lastIndex = 0, rawTags_lastIndex = 6\<rparr>
   \<and> calls (parse 3 (default_config\<lparr>rawTags_global := True\<rparr>)
              \<lparr>attr_lastIndex = 0, rawTags_lastIndex = 6\<rparr> ''<script>x'')
     = [Start ''<script>'' ''script'' new_object ''x'', Text ''x'' False []]
   \<and> calls (parse 3 (default_config\<lparr>rawTags_global := True\<rparr>)
              (st_hidden (final (parse 3 (default_config\<lparr>rawTags_global := True\<rparr>) fresh
                 ''<script>x''))) ''<script>x'')
     \<noteq> calls (parse 3 (default_config\<lparr>rawTags_global := True\<rparr>) fresh ''<script>x'')"
  by code_simp

text \<open>
  The \<^verbatim>\<open>y\<close> flag alone does the same: after the first call the one attempt of
  \<^verbatim>\<open>rawTags.test\<close> is made at position 6 and fails.
\<close>

lemma sticky_rawTags_example:
  "calls (parse 3 (default_config\<lparr>rawTags_sticky := True\<rparr>) fresh ''<script>x'')
     = [Start ''<script>'' ''script'' new_object ''x'', Text ''x'' True []]
   \<and> st_hidden (final (parse 3 (default_config\<lparr>rawTags_sticky := True\<rparr>) fresh ''<script>x''))
     = \<lparr>attr_lastIndex = 0, rawTags_lastIndex = 6\<rparr>
   \<and> calls (parse 3 (default_config\<lparr>rawTags_sticky := True\<rparr>)
              \<lparr>attr_lastIndex = 0, rawTags_lastIndex = 6\<rparr> ''<script>x'')
     = [Start ''<script>'' ''script'' new_object ''x'', Text ''x'' False []]"
  by code_simp

section \<open>The raw-text scanner on comments\<close>

lemma rawEnd_no_comment:
  "exec commentInside html = None \<Longrightarrow> rawEnd html ending offset = search html ending + offset"
  by (simp add: rawEnd.simps)

lemma rawEnd_comment_later:
  "exec commentInside html = Some c \<Longrightarrow> \<not> int (index c) < search html ending \<Longrightarrow>
   rawEnd html ending offset = search html ending + offset"
  by (simp add: rawEnd.simps)

lemma rawEnd_skips_comment:
  "exec commentInside html = Some c \<Longrightarrow> int (index c) < search html ending \<Longrightarrow>
   rawEnd html ending offset =
     rawEnd (drop (index c + length (whole c)) html) ending
            (offset + int (index c + length (whole c)))"
  by (simp add: rawEnd.simps)

lemma search_lower: "- 1 \<le> search html ending"
  by (simp add: search_def split: option.splits)

lemma rawEnd_lower: "offset - 1 \<le> rawEnd html ending offset"
proof (induction html ending offset rule: rawEnd.induct)
  case (1 html ending offset)
  show ?case
  proof (cases "exec commentInside html")
    case None
    with search_lower [of html ending] show ?thesis by (simp add: rawEnd.simps [of html])
  next
    case (Some c)
    show ?thesis
    proof (cases "int (index c) < search html ending")
      case True
      from "1.IH" [OF Some True] Some True show ?thesis
        by (simp add: rawEnd.simps [of html])
    next
      case False
      with Some search_lower [of html ending] show ?thesis
        by (simp add: rawEnd.simps [of html])
    qed
  qed
qed

text \<open>
  The scanner reports not found only when the end matcher matches nowhere in its
  input, inside a comment or not.
\<close>

lemma rawEnd_not_found_iff: "rawEnd html ending 0 = - 1 \<longleftrightarrow> search html ending = - 1"
proof (cases "exec commentInside html")
  case None
  then show ?thesis by (simp add: rawEnd.simps [of html])
next
  case (Some c)
  show ?thesis
  proof (cases "int (index c) < search html ending")
    case True
    from commentInside_nonempty [OF Some] have "1 \<le> int (index c + length (whole c))"
      by (cases "whole c") simp_all
    with rawEnd_lower [of "int (index c + length (whole c))"
        "drop (index c + length (whole c)) html" ending]
    have "0 \<le> rawEnd (drop (index c + length (whole c)) html) ending
        (int (index c + length (whole c)))" by linarith
    with Some True show ?thesis by (simp add: rawEnd.simps [of html])
  next
    case False
    with Some show ?thesis by (simp add: rawEnd.simps [of html])
  qed
qed

text \<open>
  C3. The scanner after \<^verbatim>\<open><script><!--</script-->x\<close>: the end matcher first matches
  inside the comment, the comment is skipped, and the search in the rest \<^verbatim>\<open>x\<close> finds
  nothing. \<open>rawEnd\<close> then returns -1 plus the skipped 15, and \<open>onText\<close> takes the 14 for a
  found offset: the raw text call ends one character before the end of the comment, and
  the rest is parsed as markup again. Not found is reported as -1 only when no comment
  was skipped.
\<close>

theorem rawEnd_not_found_after_comment:
  "search ''<!--</script-->x'' (matchEndDefault ''script'') = 4
   \<and> search ''x'' (matchEndDefault ''script'') = - 1
   \<and> rawEnd ''<!--</script-->x'' (matchEndDefault ''script'') 0 = 14
   \<and> onText ''<!--</script-->x'' 14 True = ([Text ''<!--</script--'' True ''>x''], ''>x'')
   \<and> calls (parse 5 default_config fresh ''<script><!--</script-->x'') =
       [Start ''<script>'' ''script'' new_object ''<!--</script-->x'',
        Text ''<!--</script--'' True ''>x'',
        Text ''>x'' False []]"
  by code_simp

text \<open>
  Without a comment in the way the raw block ends at the first match of the end
  matcher, inside a string literal of the script or not; a match inside a comment is
  passed over when another follows the comment.
\<close>

lemma raw_text_examples:
  "calls (parse 5 default_config fresh ''<script>var x = \"</script>\";</script>'') =
     [Start ''<script>'' ''script'' new_object ''var x = \"</script>\";</script>'',
      Text ''var x = \"'' True ''</script>\";</script>'',
      End ''</script>'' ''script'' ''\";</script>'',
      Text ''\";'' False ''</script>'',
      End ''</script>'' ''script'' []]"
  "calls (parse 5 default_config fresh ''<script><!--</script>-->1</script>'') =
     [Start ''<script>'' ''script'' new_object ''<!--</script>-->1</script>'',
      Text ''<!--</script>-->1'' True ''</script>'',
      End ''</script>'' ''script'' []]"
  by code_simp+

section \<open>The attribute object\<close>

text \<open>
  C4. The start tag \<^verbatim>\<open><a __proto__=x>\<close>: the assignment
  \<^verbatim>\<open>attrs['__proto__'] = 'x'\<close> runs the setter inherited from \<^verbatim>\<open>Object.prototype\<close>,
  which ignores a string, so the object handed to the start handler has no entry for the
  attribute. For \<^verbatim>\<open><a __proto__>\<close> the setter gets \<^verbatim>\<open>null\<close> and cuts the prototype
  link, again without an entry.
\<close>

theorem proto_attribute_lost:
  "calls (parse 5 default_config fresh ''<a __proto__=x>'') =
     [Start ''<a __proto__=x>'' ''a'' \<lparr>props = [], has_proto = True\<rparr> []]
   \<and> own \<lparr>props = [], has_proto = True\<rparr> ''__proto__'' = None
   \<and> calls (parse 5 default_config fresh ''<a __proto__>'') =
     [Start ''<a __proto__>'' ''a'' \<lparr>props = [], has_proto = False\<rparr> []]"
  by code_simp

text \<open>
  The attributes of the three start tags the specification lists, and a repeated name.
\<close>

lemma attribute_examples:
  "calls (parse 5 default_config fresh ''<input disabled>'') =
     [Start ''<input disabled>'' ''input'' \<lparr>props = [(''disabled'', Null)], has_proto = True\<rparr> []]"
  "calls (parse 5 default_config fresh ''<input value=\"\">'') =
     [Start ''<input value=\"\">'' ''input'' \<lparr>props = [(''value'', Str [])], has_proto = True\<rparr> []]"
  "calls (parse 5 default_config fresh ''<input value=foo>'') =
     [Start ''<input value=foo>'' ''input'' \<lparr>props = [(''value'', Str ''foo'')], has_proto = True\<rparr> []]"
  "calls (parse 5 default_config fresh ''<a B=1 b='2'>'') =
     [Start ''<a B=1 b='2'>'' ''a'' \<lparr>props = [(''b'', Str ''2'')], has_proto = True\<rparr> []]"
  by code_simp+

subsection \<open>Every other attribute name\<close>

lemma matches_caps_outside:
  "st' \<in> set (matches r st) \<Longrightarrow> n \<notin> groups_of r \<Longrightarrow> caps st' n = caps st n"
proof (induction r arbitrary: st st')
  case (Chr p)
  then show ?case by (cases "rest st") (auto split: if_splits)
next
  case (Seq a b)
  from Seq.prems obtain x where "x \<in> set (matches a st)" "st' \<in> set (matches b x)"
    by auto
  with Seq.IH Seq.prems(2) show ?case by fastforce
next
  case (Star a)
  from Star.prems(1) have "st' \<in> set (star_iter (matches a) st)" by simp
  then show ?case
    by (rule star_iter_rel [where R = "\<lambda>x y. caps y n = caps x n", rotated 3])
       (use Star in auto)
next
  case (Lazy a)
  from Lazy.prems(1) have "st' \<in> set (lazy_iter (matches a) st)" by simp
  then show ?case
    by (rule lazy_iter_rel [where R = "\<lambda>x y. caps y n = caps x n", rotated 3])
       (use Lazy in auto)
next
  case (Group k a)
  then show ?case by auto
qed (auto split: if_splits)

lemma grows_step: "A \<in> poss a \<Longrightarrow> dom (caps y) = dom (caps x) \<union> A \<Longrightarrow> grows a x y"
  unfolding grows_def by (rule exI [of _ "{A}"]) simp

lemma grows_refl: "grows a x x"
  unfolding grows_def by (rule exI [of _ "{}"]) simp

lemma grows_trans:
  assumes "grows a x y" "grows a y z"
  shows "grows a x z"
proof -
  from assms obtain S T where S: "S \<subseteq> poss a" "dom (caps y) = dom (caps x) \<union> \<Union>S"
    and T: "T \<subseteq> poss a" "dom (caps z) = dom (caps y) \<union> \<Union>T"
    unfolding grows_def by blast
  show ?thesis
    unfolding grows_def
  proof (rule exI [of _ "S \<union> T"], rule conjI)
    from S(1) T(1) show "S \<union> T \<subseteq> poss a" by simp
    from S(2) T(2) show "dom (caps z) = dom (caps x) \<union> \<Union>(S \<union> T)"
      by (simp add: Un_assoc)
  qed
qed

lemma grows_poss: "grows a x y \<Longrightarrow> \<exists>A \<in> Union ` Pow (poss a). dom (caps y) = dom (caps x) \<union> A"
  unfolding grows_def by blast

lemma matches_participants:
  "st' \<in> set (matches r st) \<Longrightarrow> \<exists>A \<in> poss r. dom (caps st') = dom (caps st) \<union> A"
proof (induction r arbitrary: st st')
  case Bol
  then show ?case by (simp split: if_splits)
next
  case Eol
  then show ?case by (simp split: if_splits)
next
  case Eps
  then show ?case by simp
next
  case (Chr p)
  then show ?case by (cases "rest st") (auto split: if_splits)
next
  case (Seq a b)
  from Seq.prems obtain x where x: "x \<in> set (matches a st)" "st' \<in> set (matches b x)"
    by auto
  from Seq.IH(1) [OF x(1)] obtain A where A: "A \<in> poss a" "dom (caps x) = dom (caps st) \<union> A"
    by blast
  from Seq.IH(2) [OF x(2)] obtain B where B: "B \<in> poss b" "dom (caps st') = dom (caps x) \<union> B"
    by blast
  from A(1) B(1) have "A \<union> B \<in> poss (Seq a b)" by (simp only: poss.simps) blast
  moreover from A(2) B(2) have "dom (caps st') = dom (caps st) \<union> (A \<union> B)"
    by (simp add: Un_assoc)
  ultimately show ?case by blast
next
  case (Alt a b)
  from Alt.prems have "st' \<in> set (matches a st) \<or> st' \<in> set (matches b st)" by simp
  then show ?case
  proof
    assume "st' \<in> set (matches a st)"
    from Alt.IH(1) [OF this] show ?thesis by (simp add: bex_Un) 
  next
    assume "st' \<in> set (matches b st)"
    from Alt.IH(2) [OF this] show ?thesis by (simp add: bex_Un)
  qed
next
  case (Star a)
  from Star.prems have "st' \<in> set (star_iter (matches a) st)" by simp
  then have "grows a st st'"
  proof (rule star_iter_rel [where R = "grows a", rotated 3])
    fix x y assume "y \<in> set (matches a x)"
    from Star.IH [OF this] show "grows a x y" by (blast intro: grows_step)
  qed (blast intro: grows_refl grows_trans)+
  then show ?case by (simp only: poss.simps grows_poss)
next
  case (Lazy a)
  from Lazy.prems have "st' \<in> set (lazy_iter (matches a) st)" by simp
  then have "grows a st st'"
  proof (rule lazy_iter_rel [where R = "grows a", rotated 3])
    fix x y assume "y \<in> set (matches a x)"
    from Lazy.IH [OF this] show "grows a x y" by (blast intro: grows_step)
  qed (blast intro: grows_refl grows_trans)+
  then show ?case by (simp only: poss.simps grows_poss)
next
  case (Group k a)
  from Group.prems obtain x where x: "x \<in> set (matches a st)"
    "caps st' = (caps x)(k \<mapsto> take (pos x - pos st) (rest st))" by auto
  from Group.IH [OF x(1)] obtain A where A: "A \<in> poss a" "dom (caps x) = dom (caps st) \<union> A" by blast
  from A(1) have "insert k A \<in> poss (Group k a)" by simp
  moreover from x(2) A(2) have "dom (caps st') = dom (caps st) \<union> insert k A"
    by simp
  ultimately show ?case by blast
qed

lemma exec_participants:
  assumes "exec_from r s i = Some m"
  shows "dom (groups m) \<in> poss r"
proof -
  from exec_from_SomeD [OF assms] obtain st sts where
    st: "matches r \<lparr>pos = index m, rest = drop (index m) s, caps = Map.empty\<rparr> = st # sts"
    and g: "groups m = caps st" by blast
  from st have "st \<in> set (matches r \<lparr>pos = index m, rest = drop (index m) s, caps = Map.empty\<rparr>)"
    by simp
  from matches_participants [OF this] g show ?thesis by auto
qed

lemma poss_small: "Union ` Pow {{}} = {{}}"
  by auto

lemma poss_endTag: "poss endTag = {{1}}"
  by (simp add: endTag_def Plus_def lit_def poss_small)

lemma poss_comment: "poss comment = {{1}}"
  by (simp add: comment_def Plus_def lit_def poss_small)

lemma poss_other: "poss other = {{1}}"
  by (simp add: other_def Plus_def lit_def poss_small)

lemma poss_startTag: "poss startTag = {{1, 2, 3}}"
  by (simp add: startTag_def Plus_def Opt_def lit_def poss_small) blast

lemma poss_attr: "poss attr = {{1}, {1, 2}, {1, 2, 3}, {1, 2, 4}, {1, 2, 5}}"
  by (simp add: attr_def Opt_def Plus_def lit_def poss_small) blast

lemma decoder_groups:
  "exec startTag html = Some m \<Longrightarrow> dom (groups m) = {1, 2, 3}"
  "exec endTag html = Some m \<Longrightarrow> dom (groups m) = {1}"
  "exec comment html = Some m \<Longrightarrow> dom (groups m) = {1}"
  "exec other html = Some m \<Longrightarrow> dom (groups m) = {1}"
  using exec_participants [of startTag html 0 m] exec_participants [of endTag html 0 m]
    exec_participants [of comment html 0 m] exec_participants [of other html 0 m]
  by (simp_all add: exec_def poss_startTag poss_endTag poss_comment poss_other)

lemma group_capture_kept:
  assumes "st' \<in> set (matches (Seq (Group n (Chr p)) r) st)" "n \<notin> groups_of r"
  shows "\<exists>c. caps st' n = Some [c]"
proof -
  from assms(1) obtain x where x: "x \<in> set (matches (Group n (Chr p)) st)"
    "st' \<in> set (matches r x)" by auto
  from x(1) have "\<exists>c. caps x n = Some [c]"
    by (cases "rest st") (auto split: if_splits)
  with matches_caps_outside [OF x(2) assms(2)] show ?thesis by simp
qed

lemma attr_equals_capture:
  assumes "st' \<in> set (matches attr st)" "caps st 2 = None"
  shows "caps st' 2 = None \<or> (\<exists>c. caps st' 2 = Some [c])"
proof -
  obtain g1 w g2 r where a: "attr = Seq g1 (Opt (Seq w (Seq (Group 2 (Chr g2)) r)))"
    and g: "2 \<notin> groups_of g1" "2 \<notin> groups_of w" "2 \<notin> groups_of r"
    by (simp add: attr_def lit_def Plus_def Opt_def)
  from assms(1) obtain x1 where x1: "x1 \<in> set (matches g1 st)"
    "st' \<in> set (matches (Opt (Seq w (Seq (Group 2 (Chr g2)) r))) x1)"
    unfolding a by auto
  from matches_caps_outside [OF x1(1) g(1)] assms(2) have n1: "caps x1 2 = None" by simp
  from x1(2) have "st' = x1 \<or> st' \<in> set (matches (Seq w (Seq (Group 2 (Chr g2)) r)) x1)"
    by (auto simp: Opt_def)
  then show ?thesis
  proof
    assume "st' = x1"
    with n1 show ?thesis by simp
  next
    assume "st' \<in> set (matches (Seq w (Seq (Group 2 (Chr g2)) r)) x1)"
    then obtain x2 where "st' \<in> set (matches (Seq (Group 2 (Chr g2)) r) x2)" by auto
    from group_capture_kept [OF this g(3)] show ?thesis by simp
  qed
qed

lemma global_matches_exec:
  "m \<in> set (global_matches r s i) \<Longrightarrow> \<exists>j. exec_from r s j = Some m"
proof (induction r s i rule: global_matches.induct)
  case (1 r s i)
  show ?case
  proof (cases "exec_from r s i")
    case None
    with "1.prems" show ?thesis by (simp add: global_matches.simps [of r s i])
  next
    case (Some a)
    with "1.prems" "1.IH" [OF Some] show ?thesis
      by (auto simp: global_matches.simps [of r s i])
  qed
qed

lemma attr_match_groups:
  assumes "exec_from attr s i = Some m"
  shows "dom (groups m) \<in> {{1}, {1, 2}, {1, 2, 3}, {1, 2, 4}, {1, 2, 5}}"
    and "groups m 2 = None \<or> (\<exists>c. groups m 2 = Some [c])"
proof -
  from exec_participants [OF assms] show "dom (groups m) \<in> {{1}, {1, 2}, {1, 2, 3}, {1, 2, 4}, {1, 2, 5}}"
    by (simp only: poss_attr)
  from exec_from_SomeD [OF assms] obtain st sts where
    st: "matches attr \<lparr>pos = index m, rest = drop (index m) s, caps = Map.empty\<rparr> = st # sts"
    and g: "groups m = caps st" by blast
  from st have "st \<in> set (matches attr \<lparr>pos = index m, rest = drop (index m) s, caps = Map.empty\<rparr>)"
    by simp
  from attr_equals_capture [OF this] g show "groups m 2 = None \<or> (\<exists>c. groups m 2 = Some [c])"
    by simp
qed

lemma dom_cases:
  "dom f = A \<Longrightarrow> (f n = None \<longleftrightarrow> n \<notin> A)"
  by auto

lemma attr_value_spec:
  assumes "exec_from attr s i = Some m"
  shows "attr_value m = spec_attr_value m"
proof -
  note d = dom_cases [of "groups m"]
  from attr_match_groups(1) [OF assms]
  consider "dom (groups m) = {1}" | "dom (groups m) = {1, 2}" | "dom (groups m) = {1, 2, 3}"
    | "dom (groups m) = {1, 2, 4}" | "dom (groups m) = {1, 2, 5}" by auto
  then show ?thesis
  proof cases
    case 1
    from d [OF 1, of 2] d [OF 1, of 3] d [OF 1, of 4] d [OF 1, of 5]
    show ?thesis by (simp add: attr_value_def spec_attr_value_def captured_value_def truthy_def)
  next
    case 2
    from d [OF 2, of 2] d [OF 2, of 3] d [OF 2, of 4] d [OF 2, of 5] attr_match_groups(2) [OF assms]
    show ?thesis
      by (auto simp: attr_value_def spec_attr_value_def captured_value_def truthy_def)
  next
    case 3
    from d [OF 3, of 2] d [OF 3, of 3] d [OF 3, of 4] d [OF 3, of 5] attr_match_groups(2) [OF assms]
    show ?thesis
      by (auto simp: attr_value_def spec_attr_value_def captured_value_def truthy_def capture_def)
  next
    case 4
    from d [OF 4, of 2] d [OF 4, of 3] d [OF 4, of 4] d [OF 4, of 5] attr_match_groups(2) [OF assms]
    show ?thesis
      by (auto simp: attr_value_def spec_attr_value_def captured_value_def truthy_def capture_def)
  next
    case 5
    from d [OF 5, of 2] d [OF 5, of 3] d [OF 5, of 4] d [OF 5, of 5] attr_match_groups(2) [OF assms]
    show ?thesis
      by (auto simp: attr_value_def spec_attr_value_def captured_value_def truthy_def capture_def)
  qed
qed

lemma map_of_update_prop:
  "map_of (update_prop k v ps) k' = (if k' = k then Some v else map_of ps k')"
  by (induction ps) auto

lemma own_obj_set:
  "k \<noteq> ''__proto__'' \<Longrightarrow> own (obj_set obj k' v) k = (if k' = k then Some v else own obj k)"
  by (cases v) (auto simp: own_def obj_set_def map_of_update_prop)

lemma own_foldl_set_attr:
  assumes "k \<noteq> ''__proto__''"
  shows "own (foldl set_attr obj ms) k =
     (case last_occurrence k ms of None \<Rightarrow> own obj k | Some m \<Rightarrow> Some (attr_value m))"
proof (induction ms arbitrary: obj)
  case Nil
  then show ?case by simp
next
  case (Cons m ms)
  show ?case
    using Cons.IH [of "set_attr obj m"]
      own_obj_set [OF assms, of obj "toLowerCase (capture m 1)" "attr_value m"]
    by (cases "last_occurrence k ms") (auto simp: set_attr_def)
qed

lemma last_occurrence_mem: "last_occurrence k ms = Some m \<Longrightarrow> m \<in> set ms"
  by (induction ms) (auto split: option.splits if_splits)

text \<open>
  For every name but \<^verbatim>\<open>__proto__\<close> the object handed to the start handler follows the
  rule of the specification.
\<close>

lemma start_tag_attributes:
  assumes "k \<noteq> ''__proto__''" and "onStartTag html m li = (Start tag tagName attrs html', html', li')"
  shows "own attrs k =
     (case last_occurrence k (global_matches attr (capture m 2) 0) of
        None \<Rightarrow> None
      | Some a \<Rightarrow> Some (spec_attr_value a))"
proof -
  let ?ms = "global_matches attr (capture m 2) 0"
  from assms(2) have attrs: "attrs = foldl set_attr new_object ?ms"
    by (simp add: onStartTag_def replace_attr_def Let_def)
  show ?thesis
  proof (cases "last_occurrence k ?ms")
    case None
    with own_foldl_set_attr [OF assms(1), of new_object ?ms] show ?thesis
      by (simp add: attrs own_def new_object_def)
  next
    case (Some a)
    from last_occurrence_mem [OF Some] global_matches_exec obtain j where
      "exec_from attr (capture m 2) j = Some a" by blast
    from attr_value_spec [OF this] Some own_foldl_set_attr [OF assms(1), of new_object ?ms]
    show ?thesis by (simp add: attrs)
  qed
qed

end
